theory Spec2Isabelle
  imports Main "HOL-Library.Char_ord" "HOL-Library.List_Lexorder"
begin

section \<open>Strings\<close>

text \<open>
  A Python \<open>str\<close> is modelled as a \<open>string\<close>, one \<open>char\<close> per code point; the model
  therefore covers names whose code points are below 256. In that range \<open>str.isspace\<close>
  (which both \<open>str.strip\<close> and the pattern \<open>\s\<close> use) holds for the twelve characters
  below, \<open>\d\<close> matches exactly the ten ASCII digits, and under \<open>re.IGNORECASE\<close> the letters
  of \<open>Rev\<close> match exactly their two cases.
\<close>

definition isspace :: "char \<Rightarrow> bool" where
  "isspace c \<longleftrightarrow> c \<in> {CHR 0x09, CHR 0x0A, CHR 0x0B, CHR 0x0C, CHR 0x0D,
      CHR 0x1C, CHR 0x1D, CHR 0x1E, CHR 0x1F, CHR '' '', CHR 0x85, CHR 0xA0}"

definition isdigit :: "char \<Rightarrow> bool" where
  "isdigit c \<longleftrightarrow> c \<in> set ''0123456789''"

definition lstrip :: "string \<Rightarrow> string" where
  "lstrip s = dropWhile isspace s"

definition rstrip :: "string \<Rightarrow> string" where
  "rstrip s = rev (dropWhile isspace (rev s))"

definition strip :: "string \<Rightarrow> string" where
  "strip s = rstrip (lstrip s)"

definition startswith :: "string \<Rightarrow> string \<Rightarrow> bool" where
  "startswith s p \<longleftrightarrow> take (length p) s = p"

text \<open>The operator \<open>sub in s\<close> on strings: \<open>sub\<close> occurs in \<open>s\<close> as a contiguous run.\<close>

fun str_in :: "string \<Rightarrow> string \<Rightarrow> bool" where
  "str_in sub [] \<longleftrightarrow> sub = []"
| "str_in sub (c # s) \<longleftrightarrow> startswith (c # s) sub \<or> str_in sub s"

text \<open>
  \<open>int(ds)\<close> on a run of decimal digits, and \<open>str(i)\<close> as an f-string formats an int.
  Python's ints are unbounded, but \<open>int\<close> refuses a string of more than
  \<open>sys.int_max_str_digits\<close> digits, 4300 unless the interpreter is configured otherwise,
  with \<open>ValueError\<close>. The same limit holds for \<open>str\<close>; it is left out, the numbers the
  program formats being numbers \<open>int\<close> has produced. The errors of the model are the
  exceptions the functions meet.
\<close>

datatype error = ParseError | ValueError | OtherError

definition digit_value :: "char \<Rightarrow> int" where
  "digit_value c = int (of_char c) - 48"

definition int_of_digits :: "string \<Rightarrow> int" where
  "int_of_digits ds = foldl (\<lambda>a c. 10 * a + digit_value c) 0 ds"

definition int_max_str_digits :: nat where
  "int_max_str_digits = 4300"

definition int_of_str :: "string \<Rightarrow> error + int" where
  "int_of_str ds =
     (if length ds > int_max_str_digits then Inl ValueError else Inr (int_of_digits ds))"

definition digit_char :: "nat \<Rightarrow> char" where
  "digit_char d = ''0123456789'' ! d"

fun str_nat :: "nat \<Rightarrow> string" where
  "str_nat n = (if n < 10 then [digit_char n] else str_nat (n div 10) @ [digit_char (n mod 10)])"

definition str_int :: "int \<Rightarrow> string" where
  "str_int i = (if i < 0 then CHR ''-'' # str_nat (nat (- i)) else str_nat (nat i))"

section \<open>Revisions: \<open>extract_revision\<close> and \<open>get_latest_revision_name\<close>\<close>

text \<open>
  \<open>match_rev s\<close> is an attempt to match the pattern \<open>\(Rev (\d+)\)\<close>, ignoring case, at the
  very start of \<open>s\<close>: it gives the digits of group 1 and what follows the match. The
  greedy \<open>\d+\<close> takes every digit, and since the character that must follow is \<open>)\<close>,
  giving digits back can never help.
\<close>

fun match_rev :: "string \<Rightarrow> (string \<times> string) option" where
  "match_rev (c0 # c1 # c2 # c3 # c4 # s) =
     (if c0 = CHR ''('' \<and> (c1 = CHR ''R'' \<or> c1 = CHR ''r'') \<and> (c2 = CHR ''e'' \<or> c2 = CHR ''E'')
         \<and> (c3 = CHR ''v'' \<or> c3 = CHR ''V'') \<and> c4 = CHR '' ''
      then (case dropWhile isdigit s of
              [] \<Rightarrow> None
            | c # r \<Rightarrow> if takeWhile isdigit s \<noteq> [] \<and> c = CHR '')''
                       then Some (takeWhile isdigit s, r) else None)
      else None)"
| "match_rev _ = None"

text \<open>\<open>re.search(r'\(Rev (\d+)\)', name, re.IGNORECASE)\<close>: group 1 of the leftmost match.\<close>

fun re_search :: "string \<Rightarrow> string option" where
  "re_search [] = None"
| "re_search (c # s) =
     (case match_rev (c # s) of Some (ds, r) \<Rightarrow> Some ds | None \<Rightarrow> re_search s)"

lemma match_rev_shorter: "match_rev s = Some (ds, r) \<Longrightarrow> length r < length s"
proof (induction s rule: match_rev.induct)
  case (1 c0 c1 c2 c3 c4 s)
  from "1.prems" obtain c where "dropWhile isdigit s = c # r"
    by (auto split: if_splits list.splits)
  then have "length (c # r) \<le> length s"
    by (metis length_dropWhile_le)
  then show ?case by simp
qed simp_all

text \<open>
  \<open>re.sub(r'\s*\(Rev \d+\)', '', name, flags=re.IGNORECASE)\<close>: scanning from the left, at
  each position the greedy \<open>\s*\<close> skips the whole run of whitespace and the marker must
  follow; a match is dropped and the scan goes on behind it, otherwise the character is
  kept and the scan moves one position on.
\<close>

function re_sub :: "string \<Rightarrow> string" where
  "re_sub [] = []"
| "re_sub (c # s) =
     (case match_rev (dropWhile isspace (c # s)) of
        Some (ds, r) \<Rightarrow> re_sub r
      | None \<Rightarrow> c # re_sub s)"
  by pat_completeness auto
termination
proof (relation "measure length")
  fix c s ds r x
  assume "match_rev (dropWhile isspace (c # s)) = Some x" and "(ds, r) = x"
  then have "length r < length (dropWhile isspace (c # s))"
    using match_rev_shorter by metis
  also have "\<dots> \<le> length (c # s)"
    by (rule length_dropWhile_le)
  finally show "(r, c # s) \<in> measure length" by simp
qed simp_all

definition extract_revision :: "string \<Rightarrow> error + string \<times> int option" where
  "extract_revision name =
     (case re_search name of
        Some ds \<Rightarrow>
          (case int_of_str ds of
             Inl e \<Rightarrow> Inl e
           | Inr rev_num \<Rightarrow> Inr (strip (re_sub name), Some rev_num))
      | None \<Rightarrow> Inr (strip name, None))"

definition get_latest_revision_name :: "string \<Rightarrow> int \<Rightarrow> string set \<Rightarrow> string option" where
  "get_latest_revision_name base_name max_rev redump_names =
     (if max_rev = 0
      then (if base_name \<in> redump_names then Some base_name else None)
      else (let rev_name = base_name @ '' (Rev '' @ str_int max_rev @ '')''
            in if rev_name \<in> redump_names then Some rev_name else None))"

text \<open>
  A revision marker, for the statements about \<open>extract_revision\<close>: an opening
  parenthesis, the word \<open>Rev\<close> in any case, one space, one or more digits, a closing
  parenthesis. A string is free of markers when no part of it is one.
\<close>

definition marker :: "char \<Rightarrow> char \<Rightarrow> char \<Rightarrow> string \<Rightarrow> string" where
  "marker r e v ds = CHR ''('' # r # e # v # CHR '' '' # ds @ '')''"

definition rev_word :: "char \<Rightarrow> char \<Rightarrow> char \<Rightarrow> bool" where
  "rev_word r e v \<longleftrightarrow>
     (r = CHR ''R'' \<or> r = CHR ''r'') \<and> (e = CHR ''e'' \<or> e = CHR ''E'') \<and> (v = CHR ''v'' \<or> v = CHR ''V'')"

definition digits :: "string \<Rightarrow> bool" where
  "digits ds \<longleftrightarrow> ds \<noteq> [] \<and> list_all isdigit ds"

definition marker_free :: "string \<Rightarrow> bool" where
  "marker_free s \<longleftrightarrow>
     (\<forall>u r e v ds w. rev_word r e v \<and> digits ds \<longrightarrow> s \<noteq> u @ marker r e v ds @ w)"

text \<open>
  A string with every marker removed, each together with the whitespace before it: a
  string free of markers stays as it is; otherwise what stands before the first marker
  stays, without the whitespace that runs up to the marker, the marker goes, and the
  rest is treated in the same way.
\<close>

inductive without_markers :: "string \<Rightarrow> string \<Rightarrow> bool" where
  no_marker: "marker_free s \<Longrightarrow> without_markers s s"
| first_marker:
    "marker_free pre \<Longrightarrow> pre = [] \<or> \<not> isspace (last pre) \<Longrightarrow> list_all isspace ws \<Longrightarrow>
     rev_word r e v \<Longrightarrow> digits ds \<Longrightarrow> without_markers post post' \<Longrightarrow>
     without_markers (pre @ ws @ marker r e v ds @ post) (pre @ post')"

text \<open>A string that cannot complete a marker begun before it: its first character is
  none a marker has after its parenthesis, unless it is the space and no digit follows.\<close>

definition blocks :: "string \<Rightarrow> bool" where
  "blocks q \<longleftrightarrow>
     (case q of
        [] \<Rightarrow> True
      | c # q' \<Rightarrow> c \<notin> set ''RrEeVv)'' \<and> \<not> isdigit c
          \<and> (c = CHR '' '' \<longrightarrow> (case q' of [] \<Rightarrow> True | d # _ \<Rightarrow> \<not> isdigit d)))"

section \<open>The catalog\<close>

text \<open>
  \<open>ET.parse\<close> and \<open>html.unescape\<close> are library code. The outcome of
  \<open>ET.parse(dat_path)\<close> followed by \<open>root.findall('game')\<close> is the input of the model:
  either the exception raised, or the \<open>name\<close> attribute of each \<open>game\<close> element in
  document order (\<open>None\<close> where the attribute is absent). \<open>html.unescape\<close> is the
  parameter \<open>unescape\<close>; it can raise as well (on a numeric reference too long for \<open>int\<close>).
  An exception inside the loop leaves the \<open>try\<close> block.
\<close>

type_synonym dat_document = "error + string option list"

text \<open>The loop of \<open>parse_dat_file\<close> over the \<open>game\<close> elements.\<close>

fun add_game_names ::
    "(string \<Rightarrow> error + string) \<Rightarrow> string option list \<Rightarrow> string set \<Rightarrow> error + string set" where
  "add_game_names unescape [] dat_names = Inr dat_names"
| "add_game_names unescape (game # games) dat_names =
     (case game of
        None \<Rightarrow> add_game_names unescape games dat_names
      | Some game_name \<Rightarrow>
          if game_name \<noteq> [] then
            (case unescape game_name of
               Inl e \<Rightarrow> Inl e
             | Inr name \<Rightarrow> add_game_names unescape games (insert name dat_names))
          else add_game_names unescape games dat_names)"

text \<open>The \<open>try\<close> block and its two handlers, \<open>except ET.ParseError\<close> and
  \<open>except Exception\<close>; both return the empty set.\<close>

definition parse_dat_file :: "(string \<Rightarrow> error + string) \<Rightarrow> dat_document \<Rightarrow> string set" where
  "parse_dat_file unescape doc =
     (case (case doc of Inl e \<Rightarrow> Inl e | Inr games \<Rightarrow> add_game_names unescape games {}) of
        Inr dat_names \<Rightarrow> dat_names
      | Inl ParseError \<Rightarrow> {}
      | Inl ValueError \<Rightarrow> {}
      | Inl OtherError \<Rightarrow> {})"

text \<open>\<open>base_to_max_rev[base_name]\<close> on a \<open>defaultdict(int)\<close>: reading a missing key stores 0.\<close>

definition defaultdict_get :: "(string \<rightharpoonup> int) \<Rightarrow> string \<Rightarrow> int \<times> (string \<rightharpoonup> int)" where
  "defaultdict_get m k = (case m k of None \<Rightarrow> (0, m(k \<mapsto> 0)) | Some v \<Rightarrow> (v, m))"

text \<open>What the loop of \<open>parse_dat_file_for_revisions\<close> does with one unescaped name.\<close>

definition track_revision :: "(string \<rightharpoonup> int) \<Rightarrow> string \<Rightarrow> error + (string \<rightharpoonup> int)" where
  "track_revision base_to_max_rev game_name =
     (case extract_revision game_name of
        Inl e \<Rightarrow> Inl e
      | Inr (base_name, Some rev_num) \<Rightarrow>
          (case defaultdict_get base_to_max_rev base_name of
             (cur, m) \<Rightarrow> Inr (if rev_num > cur then m(base_name \<mapsto> rev_num) else m))
      | Inr (base_name, None) \<Rightarrow>
          Inr (if base_name \<notin> dom base_to_max_rev then base_to_max_rev(base_name \<mapsto> 0)
               else base_to_max_rev))"

text \<open>The loop of \<open>parse_dat_file_for_revisions\<close> over the \<open>game\<close> elements.\<close>

fun track_revisions ::
    "(string \<Rightarrow> error + string) \<Rightarrow> string option list \<Rightarrow> (string \<rightharpoonup> int)
      \<Rightarrow> error + (string \<rightharpoonup> int)" where
  "track_revisions unescape [] base_to_max_rev = Inr base_to_max_rev"
| "track_revisions unescape (game # games) base_to_max_rev =
     (case game of
        None \<Rightarrow> track_revisions unescape games base_to_max_rev
      | Some game_name \<Rightarrow>
          if game_name \<noteq> [] then
            (case unescape game_name of
               Inl e \<Rightarrow> Inl e
             | Inr name \<Rightarrow>
                 (case track_revision base_to_max_rev name of
                    Inl e \<Rightarrow> Inl e
                  | Inr m \<Rightarrow> track_revisions unescape games m))
          else track_revisions unescape games base_to_max_rev)"

definition parse_dat_file_for_revisions ::
    "(string \<Rightarrow> error + string) \<Rightarrow> dat_document \<Rightarrow> (string \<rightharpoonup> int)" where
  "parse_dat_file_for_revisions unescape doc =
     (case (case doc of Inl e \<Rightarrow> Inl e | Inr games \<Rightarrow> track_revisions unescape games Map.empty) of
        Inr base_to_max_rev \<Rightarrow> base_to_max_rev
      | Inl ParseError \<Rightarrow> Map.empty
      | Inl ValueError \<Rightarrow> Map.empty
      | Inl OtherError \<Rightarrow> Map.empty)"

text \<open>
  For the statements about the revision index: whether the loop raises at an entry
  (its name does not unescape, or the number of its marker does not convert); the pairs
  \<open>extract_revision\<close> returns on a set of names; and the revision a pair counts as, a
  name without a marker counting as revision 0.
\<close>

definition entry_raises :: "(string \<Rightarrow> error + string) \<Rightarrow> string option \<Rightarrow> bool" where
  "entry_raises unescape game \<longleftrightarrow>
     (case game of
        None \<Rightarrow> False
      | Some game_name \<Rightarrow>
          game_name \<noteq> [] \<and>
          (case unescape game_name of
             Inl e \<Rightarrow> True
           | Inr name \<Rightarrow> (case extract_revision name of Inl e \<Rightarrow> True | Inr p \<Rightarrow> False)))"

definition catalog_entries :: "string set \<Rightarrow> (string \<times> int option) set" where
  "catalog_entries names = {p. \<exists>name\<in>names. extract_revision name = Inr p}"

fun revision_number :: "int option \<Rightarrow> int" where
  "revision_number None = 0"
| "revision_number (Some rev_num) = rev_num"

text \<open>The revision index for a set of pairs: an entry for exactly the base names, each the
  greatest revision among the pairs of that base name, and no negative value.\<close>

definition index_of :: "(string \<rightharpoonup> int) \<Rightarrow> (string \<times> int option) set \<Rightarrow> bool" where
  "index_of m E \<longleftrightarrow>
     dom m = fst ` E \<and> (\<forall>v\<in>ran m. 0 \<le> v)
     \<and> (\<forall>b\<in>dom m. m b = Some (Max (revision_number ` snd ` {p \<in> E. fst p = b})))"

text \<open>A name whose marker has more digits than \<open>int\<close> converts.\<close>

definition long_revision_name :: string where
  "long_revision_name = ''Game A (Rev '' @ replicate 4301 CHR ''1'' @ '')''"

section \<open>The asset directories\<close>

text \<open>
  The eleven directories the scripts look into. A file system gives for each directory
  \<open>None\<close> when it does not exist and otherwise the stems of the entries that
  \<open>glob("*.png")\<close> yields, in the order it yields them; the path
  \<open>directory / f"{name}.png"\<close> exists when \<open>name\<close> is one of these stems (an entry
  named just \<open>.png\<close>, whose stem is its whole name, is left aside). A path is a
  directory together with a stem.
\<close>

datatype directory =
    Dir_2dbox | Dir_2dbox_lq | Dir_2dbox_missing
  | Dir_3dbox | Dir_3dbox_lq | Dir_3dbox_missing
  | Dir_disc | Dir_disc_lq | Dir_disc_missing
  | Dir_icon0_generated | Dir_icon0_bespoke

type_synonym filesystem = "directory \<Rightarrow> string list option"

type_synonym path = "directory \<times> string"

definition COLLECTION_DIRS :: "(string \<times> directory list) list" where
  "COLLECTION_DIRS =
     [(''2dbox'', [Dir_2dbox, Dir_2dbox_lq, Dir_2dbox_missing]),
      (''3dbox'', [Dir_3dbox, Dir_3dbox_lq, Dir_3dbox_missing]),
      (''disc'', [Dir_disc, Dir_disc_lq, Dir_disc_missing]),
      (''psp-icon0'', [Dir_icon0_generated, Dir_icon0_bespoke])]"

definition collect_collection_filenames :: "filesystem \<Rightarrow> string set" where
  "collect_collection_filenames fs =
     fold (\<lambda>(category, dirs) collection_names.
             fold (\<lambda>directory collection_names.
                     case fs directory of
                       None \<Rightarrow> collection_names
                     | Some files \<Rightarrow>
                         fold (\<lambda>stem collection_names.
                                 if str_in '' alt'' stem then collection_names
                                 else insert stem collection_names)
                              files collection_names)
                  dirs collection_names)
          COLLECTION_DIRS {}"

text \<open>The loop of \<open>check_image_exists\<close> over the variant directories: the first hit wins.\<close>

fun first_location :: "filesystem \<Rightarrow> string \<Rightarrow> (directory \<times> string) list \<Rightarrow> bool \<times> string option" where
  "first_location fs game_name [] = (False, None)"
| "first_location fs game_name ((directory, location) # dirs) =
     (case fs directory of
        Some files \<Rightarrow>
          if game_name \<in> set files then (True, Some location)
          else first_location fs game_name dirs
      | None \<Rightarrow> first_location fs game_name dirs)"

definition check_image_exists :: "filesystem \<Rightarrow> string \<Rightarrow> string \<Rightarrow> bool \<times> string option" where
  "check_image_exists fs game_name category =
     (if category = ''2dbox'' then
        first_location fs game_name
          [(Dir_2dbox, ''normal''), (Dir_2dbox_lq, ''lq''), (Dir_2dbox_missing, ''missing'')]
      else if category = ''3dbox'' then
        first_location fs game_name
          [(Dir_3dbox, ''normal''), (Dir_3dbox_lq, ''lq''), (Dir_3dbox_missing, ''missing'')]
      else if category = ''disc'' then
        first_location fs game_name
          [(Dir_disc, ''normal''), (Dir_disc_lq, ''lq''), (Dir_disc_missing, ''missing'')]
      else if category = ''psp-icon0'' then
        first_location fs game_name
          [(Dir_icon0_generated, ''generated''), (Dir_icon0_bespoke, ''bespoke'')]
      else (False, None))"

text \<open>The inner loop of \<open>check_collection_completeness\<close>: the two lists of one game.\<close>

definition check_categories :: "filesystem \<Rightarrow> string \<Rightarrow> string list \<times> string list" where
  "check_categories fs game_name =
     fold (\<lambda>category (missing_cats, missing_only_cats).
             case check_image_exists fs game_name category of
               (exists, location) \<Rightarrow>
                 if \<not> exists then (missing_cats @ [category], missing_only_cats)
                 else if location = Some ''missing'' then (missing_cats, missing_only_cats @ [category])
                 else (missing_cats, missing_only_cats))
          [''2dbox'', ''3dbox'', ''disc'', ''psp-icon0''] ([], [])"

text \<open>The set \<open>collection_names\<close> is given as the list of its elements in the order the
  \<open>for\<close> loop visits them.\<close>

definition check_collection_completeness ::
    "filesystem \<Rightarrow> string list \<Rightarrow> (string \<rightharpoonup> string list) \<times> (string \<rightharpoonup> string list)" where
  "check_collection_completeness fs collection_names =
     fold (\<lambda>game_name (missing_images, missing_only_games).
             case check_categories fs game_name of
               (missing_cats, missing_only_cats) \<Rightarrow>
                 ((if missing_cats \<noteq> [] then missing_images(game_name \<mapsto> missing_cats)
                   else missing_images),
                  (if missing_only_cats \<noteq> [] then missing_only_games(game_name \<mapsto> missing_only_cats)
                   else missing_only_games)))
          collection_names (Map.empty, Map.empty)"

definition check_psp_icon0_sync :: "filesystem \<Rightarrow> string set \<Rightarrow> path list" where
  "check_psp_icon0_sync fs collection_names =
     fold (\<lambda>psp_dir mismatched_files.
             case fs psp_dir of
               None \<Rightarrow> mismatched_files
             | Some files \<Rightarrow>
                 fold (\<lambda>game_name mismatched_files.
                         if game_name \<notin> collection_names
                         then mismatched_files @ [(psp_dir, game_name)]
                         else mismatched_files)
                      files mismatched_files)
          [Dir_icon0_generated, Dir_icon0_bespoke] []"

text \<open>The stems of a directory as a set; a directory that does not exist has none.\<close>

definition stems :: "filesystem \<Rightarrow> directory \<Rightarrow> string set" where
  "stems fs d = (case fs d of None \<Rightarrow> {} | Some files \<Rightarrow> set files)"

text \<open>Whether a category is in the list a result dictionary holds for a game.\<close>

definition listed :: "(string \<rightharpoonup> string list) \<Rightarrow> string \<Rightarrow> string \<Rightarrow> bool" where
  "listed m game_name category \<longleftrightarrow>
     (case m game_name of None \<Rightarrow> False | Some cats \<Rightarrow> category \<in> set cats)"

text \<open>A small collection for the examples: one game with a 2D box, a placeholder for
  the 3D box, no disc and a generated icon; an alternate 2D box; and two icons of a
  title that has nothing else.\<close>

definition example_fs :: filesystem where
  "example_fs d =
     (if d = Dir_2dbox then Some [''Game A'', ''Game A alt'']
      else if d = Dir_3dbox_missing then Some [''Game A'']
      else if d = Dir_icon0_generated then Some [''Game A'', ''Solo'']
      else if d = Dir_icon0_bespoke then Some [''Solo alt'']
      else None)"

section \<open>The comparison in \<open>main\<close>\<close>

text \<open>The three \<open>sorted(...)\<close> lists \<open>main\<close> computes: in the catalog only, in the
  collection only, in both. Python orders strings by code point, lexicographically.\<close>

definition compare_names :: "string set \<Rightarrow> string set \<Rightarrow> string list \<times> string list \<times> string list" where
  "compare_names dat_names collection_names =
     (sorted_list_of_set (dat_names - collection_names),
      sorted_list_of_set (collection_names - dat_names),
      sorted_list_of_set (collection_names \<inter> dat_names))"

text \<open>\<open>main\<close> from the parse of the catalog up to the comparison; \<open>None\<close> is one of its early
  \<open>return\<close>s after an error message, when a name set is empty.\<close>

definition main :: "(string \<Rightarrow> error + string) \<Rightarrow> dat_document \<Rightarrow> filesystem
    \<Rightarrow> (string list \<times> string list \<times> string list) option" where
  "main unescape doc fs =
     (let dat_names = parse_dat_file unescape doc in
      if dat_names = {} then None
      else let collection_names = collect_collection_filenames fs in
        if collection_names = {} then None
        else Some (compare_names dat_names collection_names))"

section \<open>The filter report\<close>

text \<open>Iterating over a text file yields its lines, each with its newline; the last line
  may lack one. The text is what the file object hands out, every line end already
  translated to a newline.\<close>

fun file_lines :: "string \<Rightarrow> string list" where
  "file_lines [] = []"
| "file_lines (c # s) =
     (if c = CHR 0x0A then [c] # file_lines s
      else (case file_lines s of [] \<Rightarrow> [[c]] | l # ls \<Rightarrow> (c # l) # ls))"

record report_state =
  removed_games :: "string \<rightharpoonup> string"
  current_section :: "string option"
  current_parent :: "string option"

text \<open>The chain of nine comparisons with the section headers.\<close>

definition section_header :: "string \<Rightarrow> string option" where
  "section_header line =
     (if line = ''TITLES WITH CLONES'' then Some ''Clone''
      else if line = ''APPLICATION REMOVES'' then Some ''Application''
      else if line = ''AUDIO REMOVES'' then Some ''Audio''
      else if line = ''COVERDISC REMOVES'' then Some ''Coverdisc''
      else if line = ''DEMO, KIOSK, AND SAMPLE REMOVES'' then Some ''Demo/Kiosk/Sample''
      else if line = ''EDUCATIONAL REMOVES'' then Some ''Educational''
      else if line = ''UNLICENSED REMOVES'' then Some ''Unlicensed''
      else if line = ''VIDEO REMOVES'' then Some ''Video''
      else if line = ''LANGUAGE REMOVES'' then Some ''Language''
      else None)"

text \<open>Truth value of an optional string: \<open>None\<close> and the empty string are false.\<close>

fun truthy :: "string option \<Rightarrow> bool" where
  "truthy None \<longleftrightarrow> False"
| "truthy (Some s) \<longleftrightarrow> s \<noteq> []"

text \<open>The body of the loop over the lines.\<close>

definition process_line :: "report_state \<Rightarrow> string \<Rightarrow> report_state" where
  "process_line st raw =
     (let line = rstrip raw in
      case section_header line of
        Some sec \<Rightarrow> st\<lparr>current_section := Some sec, current_parent := None\<rparr>
      | None \<Rightarrow>
          if line = [] \<or> startswith line ''='' \<or> startswith line ''*''
             \<or> startswith line ''SECTIONS'' \<or> startswith line ''This file''
          then st
          else
            let stripped_line = lstrip line in
            if startswith stripped_line ''+ '' then
              (if current_section st = Some ''Clone''
               then st\<lparr>current_parent := Some (strip (drop 2 stripped_line))\<rparr>
               else st)
            else if startswith stripped_line ''- '' then
              (let game_name = strip (drop 2 stripped_line) in
               if current_section st = Some ''Clone'' \<and> truthy (current_parent st) then
                 st\<lparr>removed_games := (removed_games st)
                      (game_name \<mapsto> ''Superior version: '' @ [CHR 0x27] @ the (current_parent st) @ [CHR 0x27])\<rparr>
               else if truthy (current_section st) then
                 st\<lparr>removed_games := (removed_games st)(game_name \<mapsto> the (current_section st))\<rparr>
               else
                 st\<lparr>removed_games := (removed_games st)(game_name \<mapsto> ''Removed'')\<rparr>)
            else st)"

definition initial_state :: report_state where
  "initial_state = \<lparr>removed_games = Map.empty, current_section = None, current_parent = None\<rparr>"

definition process_lines :: "string list \<Rightarrow> report_state" where
  "process_lines ls = fold (\<lambda>line st. process_line st line) ls initial_state"

text \<open>The input is the decoded text of the report, or the exception that opening or
  decoding it raises.\<close>

definition parse_filter_report :: "error + string \<Rightarrow> (string \<rightharpoonup> string)" where
  "parse_filter_report txt =
     (case txt of
        Inr text \<Rightarrow> removed_games (process_lines (file_lines text))
      | Inl e \<Rightarrow> Map.empty)"

section \<open>The state machine of the filter report, as specified\<close>

text \<open>
  The specification describes the parser as a state machine: the state is the section
  the last header opened (none before the first header) and the parent title a kept line
  has set; a removed line is tagged with a reason. The sections, the reason tags and the
  kinds of line:
\<close>

datatype report_section =
  Clone | Application | Audio | Coverdisc | Demo_Kiosk_Sample | Educational | Unlicensed
  | Video | Language

datatype reason_tag = Superseded_by string | Section_reason report_section | Unspecified

datatype report_line = Header report_section | Ignored | Kept string | Removed string | Other

text \<open>The strings the code uses for the sections and for the reasons.\<close>

fun section_name :: "report_section \<Rightarrow> string" where
  "section_name Clone = ''Clone''"
| "section_name Application = ''Application''"
| "section_name Audio = ''Audio''"
| "section_name Coverdisc = ''Coverdisc''"
| "section_name Demo_Kiosk_Sample = ''Demo/Kiosk/Sample''"
| "section_name Educational = ''Educational''"
| "section_name Unlicensed = ''Unlicensed''"
| "section_name Video = ''Video''"
| "section_name Language = ''Language''"

fun reason_string :: "reason_tag \<Rightarrow> string" where
  "reason_string (Superseded_by parent) = ''Superior version: '' @ [CHR 0x27] @ parent @ [CHR 0x27]"
| "reason_string (Section_reason sec) = section_name sec"
| "reason_string Unspecified = ''Removed''"

text \<open>The nine header lines and the section each one opens.\<close>

definition header_section :: "string \<Rightarrow> report_section option" where
  "header_section line =
     (if line = ''TITLES WITH CLONES'' then Some Clone
      else if line = ''APPLICATION REMOVES'' then Some Application
      else if line = ''AUDIO REMOVES'' then Some Audio
      else if line = ''COVERDISC REMOVES'' then Some Coverdisc
      else if line = ''DEMO, KIOSK, AND SAMPLE REMOVES'' then Some Demo_Kiosk_Sample
      else if line = ''EDUCATIONAL REMOVES'' then Some Educational
      else if line = ''UNLICENSED REMOVES'' then Some Unlicensed
      else if line = ''VIDEO REMOVES'' then Some Video
      else if line = ''LANGUAGE REMOVES'' then Some Language
      else None)"

text \<open>What kind of line the loop body takes a line for: its tests, in their order.\<close>

definition classify :: "string \<Rightarrow> report_line" where
  "classify raw =
     (let line = rstrip raw in
      case header_section line of
        Some sec \<Rightarrow> Header sec
      | None \<Rightarrow>
          if line = [] \<or> startswith line ''='' \<or> startswith line ''*''
             \<or> startswith line ''SECTIONS'' \<or> startswith line ''This file''
          then Ignored
          else if startswith (lstrip line) ''+ '' then Kept (strip (drop 2 (lstrip line)))
          else if startswith (lstrip line) ''- '' then Removed (strip (drop 2 (lstrip line)))
          else Other)"

text \<open>
  The machine in the words of the specification. A header moves to its section and
  clears the parent. A kept line in the \<open>Clone\<close> section records its title as the
  parent. A removed line is tagged \<open>superseded-by(parent)\<close> when the section is \<open>Clone\<close>
  and a parent is set, else with the reason of the section when there is one, else as
  unspecified; a later tag for the same title replaces the earlier one. Every other line
  leaves the state as it is.
\<close>

record spec_state =
  tags :: "string \<rightharpoonup> reason_tag"
  state :: "report_section option"
  parent :: "string option"

fun state_reason :: "report_section option \<Rightarrow> reason_tag" where
  "state_reason (Some sec) = Section_reason sec"
| "state_reason None = Unspecified"

fun spec_step :: "spec_state \<Rightarrow> report_line \<Rightarrow> spec_state" where
  "spec_step s (Header sec) = s\<lparr>state := Some sec, parent := None\<rparr>"
| "spec_step s Ignored = s"
| "spec_step s (Kept title) = (if state s = Some Clone then s\<lparr>parent := Some title\<rparr> else s)"
| "spec_step s (Removed title) =
     s\<lparr>tags := (tags s)(title \<mapsto>
        (case parent s of
           Some p \<Rightarrow> if state s = Some Clone then Superseded_by p else state_reason (state s)
         | None \<Rightarrow> state_reason (state s)))\<rparr>"
| "spec_step s Other = s"

definition spec_run :: "report_line list \<Rightarrow> spec_state" where
  "spec_run ls = foldl spec_step \<lparr>tags = Map.empty, state = None, parent = None\<rparr> ls"

text \<open>The state of the code's loop and the state of the machine agree.\<close>

definition simulates :: "report_state \<Rightarrow> spec_state \<Rightarrow> bool" where
  "simulates st s \<longleftrightarrow>
     removed_games st = map_option reason_string \<circ> tags s
     \<and> current_section st = map_option section_name (state s)
     \<and> current_parent st = parent s
     \<and> parent s \<noteq> Some []"

text \<open>The report of the specification's example.\<close>

definition example_report :: string where
  "example_report =
     ''TITLES WITH CLONES\<newline>+ Game A (USA)\<newline>- Game A (Europe)\<newline>AUDIO REMOVES\<newline>- Game B\<newline>''"

section \<open>The latest revision's name\<close>

text \<open>
  Claim C5. For every base name, maximal revision and set of catalog names: when the
  maximal revision is 0 the lookup returns the base name exactly when it is one of the
  catalog names, and is absent otherwise; when the maximal revision is positive it
  returns the string \<open>{base} (Rev {max_rev})\<close> exactly when that string is one of the
  catalog names, and is absent otherwise. Hence a result that is not absent is always a
  member of the catalog names.
\<close>

theorem get_latest_revision_name_exact:
  "(max_rev = 0 \<longrightarrow>
      get_latest_revision_name base max_rev names = (if base \<in> names then Some base else None))
   \<and> (0 < max_rev \<longrightarrow>
      get_latest_revision_name base max_rev names =
        (if base @ '' (Rev '' @ str_int max_rev @ '')'' \<in> names
         then Some (base @ '' (Rev '' @ str_int max_rev @ '')'') else None))
   \<and> (\<forall>r. get_latest_revision_name base max_rev names = Some r \<longrightarrow> r \<in> names)"
  by (auto simp: get_latest_revision_name_def Let_def split: if_splits)

theorem get_latest_revision_name_exact_witness:
  "(0::int) < 2
   \<and> get_latest_revision_name ''Game A'' 2 {''Game A'', ''Game A (Rev 1)'', ''Game A (Rev 2)''}
       = Some ''Game A (Rev 2)''
   \<and> ''Game A (Rev 2)'' \<in> {''Game A'', ''Game A (Rev 1)'', ''Game A (Rev 2)''}
   \<and> get_latest_revision_name ''Game A'' 0 {''Game A'', ''Game A (Rev 1)'', ''Game A (Rev 2)''}
       = Some ''Game A''
   \<and> get_latest_revision_name ''Base'' 5 {''Base (Rev 5) (Alt)''} = None"
  using get_latest_revision_name_exact [of 2 "''Game A''" "{''Game A'', ''Game A (Rev 1)'', ''Game A (Rev 2)''}"]
    get_latest_revision_name_exact [of 0 "''Game A''" "{''Game A'', ''Game A (Rev 1)'', ''Game A (Rev 2)''}"]
    get_latest_revision_name_exact [of 5 "''Base''" "{''Base (Rev 5) (Alt)''}"]
  by (simp add: str_int_def digit_char_def)

section \<open>The comparison of the two name sets\<close>

text \<open>
  Claim C7. For every pair of (finite) catalog and collection name sets, the three lists
  of the comparison hold the catalog names not in the collection, the collection names
  not in the catalog, and the names in both; the three are pairwise disjoint and
  together they are the union of the two name sets.
\<close>

theorem compare_names_partition:
  assumes "finite dat_names" and "finite collection_names"
  shows "case compare_names dat_names collection_names of
           (in_dat_not_collection, in_collection_not_dat, in_both) \<Rightarrow>
             set in_dat_not_collection = dat_names - collection_names
           \<and> set in_collection_not_dat = collection_names - dat_names
           \<and> set in_both = collection_names \<inter> dat_names
           \<and> set in_dat_not_collection \<inter> set in_collection_not_dat = {}
           \<and> set in_dat_not_collection \<inter> set in_both = {}
           \<and> set in_collection_not_dat \<inter> set in_both = {}
           \<and> set in_dat_not_collection \<union> set in_both \<union> set in_collection_not_dat
               = dat_names \<union> collection_names"
  using assms by (auto simp: compare_names_def)

theorem compare_names_partition_witness:
  "finite {''Game A'', ''Game B''} \<and> finite {''Game B'', ''Game C''}
   \<and> (case compare_names {''Game A'', ''Game B''} {''Game B'', ''Game C''} of
         (in_dat_not_collection, in_collection_not_dat, in_both) \<Rightarrow>
           set in_dat_not_collection \<inter> set in_collection_not_dat = {}
         \<and> set in_dat_not_collection \<inter> set in_both = {}
         \<and> set in_collection_not_dat \<inter> set in_both = {}
         \<and> set in_dat_not_collection \<union> set in_both \<union> set in_collection_not_dat
             = {''Game A'', ''Game B''} \<union> {''Game B'', ''Game C''})"
  using compare_names_partition [of "{''Game A'', ''Game B''}" "{''Game B'', ''Game C''}"]
  by (auto split: prod.splits)

section \<open>A catalog that does not parse\<close>

text \<open>
  Claim C2, as the code has it. For a catalog document that is not well-formed,
  \<open>parse_dat_file\<close> catches the \<open>ParseError\<close> and returns the empty name set to its
  caller, never a partial one; \<open>main\<close> takes an empty name set as fatal and returns
  before any comparison is made.
\<close>

theorem parse_error_gives_empty_set:
  "parse_dat_file unescape (Inl ParseError) = {} \<and> main unescape (Inl ParseError) fs = None"
  by (simp add: parse_dat_file_def main_def)

text \<open>The claim as stated says that no empty name set is returned to the caller; on a
  document that raises \<open>ParseError\<close> the empty set is what the caller receives.\<close>

theorem parse_dat_file_counterexample: "parse_dat_file Inr (Inl ParseError) = {}"
  by (simp add: parse_dat_file_def)

section \<open>The inventory of the collection\<close>

lemma str_in_iff: "str_in sub s \<longleftrightarrow> (\<exists>u v. s = u @ sub @ v)"
proof (induction s)
  case Nil
  then show ?case by simp
next
  case (Cons c s)
  have "startswith (c # s) sub \<longleftrightarrow> (\<exists>v. c # s = sub @ v)"
    unfolding startswith_def
    by (metis append_eq_conv_conj append_take_drop_id)
  moreover have "(\<exists>u v. c # s = u @ sub @ v) \<longleftrightarrow> (\<exists>v. c # s = sub @ v) \<or> (\<exists>u v. s = u @ sub @ v)"
  proof
    assume "\<exists>u v. c # s = u @ sub @ v"
    then obtain u v where uv: "c # s = u @ sub @ v" by blast
    show "(\<exists>v. c # s = sub @ v) \<or> (\<exists>u v. s = u @ sub @ v)"
    proof (cases u)
      case Nil
      with uv show ?thesis by auto
    next
      case (Cons a u')
      with uv have "s = u' @ sub @ v" by simp
      then show ?thesis by blast
    qed
  next
    assume "(\<exists>v. c # s = sub @ v) \<or> (\<exists>u v. s = u @ sub @ v)"
    then show "\<exists>u v. c # s = u @ sub @ v"
    proof
      assume "\<exists>v. c # s = sub @ v"
      then obtain v where "c # s = [] @ sub @ v" by auto
      then show ?thesis by blast
    next
      assume "\<exists>u v. s = u @ sub @ v"
      then obtain u v where "c # s = (c # u) @ sub @ v" by auto
      then show ?thesis by blast
    qed
  qed
  ultimately show ?case using Cons.IH by simp
qed

lemma fold_insert_unless:
  "fold (\<lambda>stem N. if P stem then N else insert stem N) files N0 = N0 \<union> {s \<in> set files. \<not> P s}"
  by (induction files arbitrary: N0) auto

lemma collect_directory:
  "(case fs d of None \<Rightarrow> N0
    | Some files \<Rightarrow> fold (\<lambda>stem N. if P stem then N else insert stem N) files N0)
   = N0 \<union> {s \<in> stems fs d. \<not> P s}"
  by (cases "fs d") (simp_all add: stems_def fold_insert_unless)

lemma UNIV_directory:
  "(UNIV :: directory set) = {Dir_2dbox, Dir_2dbox_lq, Dir_2dbox_missing,
      Dir_3dbox, Dir_3dbox_lq, Dir_3dbox_missing, Dir_disc, Dir_disc_lq, Dir_disc_missing,
      Dir_icon0_generated, Dir_icon0_bespoke}"
  by (auto intro: directory.exhaust)

lemma collect_collection_filenames_eq:
  "collect_collection_filenames fs = {s. \<exists>d. s \<in> stems fs d \<and> \<not> str_in '' alt'' s}"
proof -
  have "{s. \<exists>d. s \<in> stems fs d \<and> \<not> str_in '' alt'' s}
        = (\<Union>d\<in>UNIV. {s \<in> stems fs d. \<not> str_in '' alt'' s})"
    by auto
  also have "\<dots> = collect_collection_filenames fs"
    unfolding UNIV_directory collect_collection_filenames_def COLLECTION_DIRS_def
    by (simp add: collect_directory Un_assoc)
  finally show ?thesis by simp
qed

lemma example_fs_inventory: "collect_collection_filenames example_fs = {''Game A'', ''Solo''}"
  by (simp add: collect_collection_filenames_def COLLECTION_DIRS_def example_fs_def
      startswith_def insert_commute)

text \<open>
  Claim C8. Whatever the directories hold, a name in the set that the scan of the
  collection returns never has \<open>" alt"\<close> in it: no stem with that substring gets in, from
  any directory of any category.
\<close>

theorem alt_never_in_inventory:
  "name \<in> collect_collection_filenames fs \<Longrightarrow>
     \<not> str_in '' alt'' name \<and> (\<forall>u v. name \<noteq> u @ '' alt'' @ v)"
  using str_in_iff [of "'' alt''" name] by (auto simp: collect_collection_filenames_eq)

theorem alt_never_in_inventory_witness:
  "''Game A'' \<in> collect_collection_filenames example_fs \<and> \<not> str_in '' alt'' ''Game A''
   \<and> ''Game A alt'' \<notin> collect_collection_filenames example_fs"
  using alt_never_in_inventory [of "''Game A''" example_fs]
    alt_never_in_inventory [of "''Game A alt''" example_fs]
  by (simp add: example_fs_inventory startswith_def)

section \<open>Icons that match no collection name\<close>

lemma fold_append_unless:
  "fold (\<lambda>x acc. if P x then acc @ [f x] else acc) xs acc0 = acc0 @ map f (filter P xs)"
  by (induction xs arbitrary: acc0) auto

lemma set_check_psp_icon0_sync:
  "set (check_psp_icon0_sync fs N) =
     {(d, s). d \<in> {Dir_icon0_generated, Dir_icon0_bespoke} \<and> s \<in> stems fs d \<and> s \<notin> N}"
  by (cases "fs Dir_icon0_generated"; cases "fs Dir_icon0_bespoke")
    (auto simp: check_psp_icon0_sync_def fold_append_unless stems_def)

text \<open>Against the inventory the check can only report icons with \<open>" alt"\<close> in their stem:
  the scan of the collection reads the two icon directories as well, so the stem of every
  other icon is in the set the icons are compared with.\<close>

lemma sync_against_inventory:
  "set (check_psp_icon0_sync fs (collect_collection_filenames fs)) =
     {(d, s). d \<in> {Dir_icon0_generated, Dir_icon0_bespoke} \<and> s \<in> stems fs d \<and> str_in '' alt'' s}"
  unfolding set_check_psp_icon0_sync
  by (auto simp: collect_collection_filenames_eq)

text \<open>
  Claim C3. The check is to report the icon files whose stem is not in the inventory,
  and so every icon whose stem is in no 2D box, 3D box or disc folder. The code does not:
  in the example collection \<open>Solo\<close> has an icon and nothing else, and the only file
  reported is another one.
\<close>

theorem icon_only_stem_not_reported:
  "''Solo'' \<in> stems example_fs Dir_icon0_generated
   \<and> ''Solo'' \<notin> stems example_fs Dir_2dbox \<and> ''Solo'' \<notin> stems example_fs Dir_2dbox_lq
   \<and> ''Solo'' \<notin> stems example_fs Dir_2dbox_missing
   \<and> ''Solo'' \<notin> stems example_fs Dir_3dbox \<and> ''Solo'' \<notin> stems example_fs Dir_3dbox_lq
   \<and> ''Solo'' \<notin> stems example_fs Dir_3dbox_missing
   \<and> ''Solo'' \<notin> stems example_fs Dir_disc \<and> ''Solo'' \<notin> stems example_fs Dir_disc_lq
   \<and> ''Solo'' \<notin> stems example_fs Dir_disc_missing
   \<and> check_psp_icon0_sync example_fs (collect_collection_filenames example_fs)
       = [(Dir_icon0_bespoke, ''Solo alt'')]"
  by (simp add: example_fs_inventory)
    (simp add: check_psp_icon0_sync_def example_fs_def stems_def)

section \<open>Completeness of the collection\<close>

lemma fold_categories:
  "fold (\<lambda>category (missing_cats, missing_only_cats).
           case f category of
             (exists, location) \<Rightarrow>
               if \<not> exists then (missing_cats @ [category], missing_only_cats)
               else if location = Some ''missing'' then (missing_cats, missing_only_cats @ [category])
               else (missing_cats, missing_only_cats))
        cats (a, b)
   = (a @ filter (\<lambda>c. \<not> fst (f c)) cats,
      b @ filter (\<lambda>c. fst (f c) \<and> snd (f c) = Some ''missing'') cats)"
  by (induction cats arbitrary: a b) (auto split: prod.splits)

lemma check_categories_eq:
  "check_categories fs game_name =
     (filter (\<lambda>c. \<not> fst (check_image_exists fs game_name c)) [''2dbox'', ''3dbox'', ''disc'', ''psp-icon0''],
      filter (\<lambda>c. fst (check_image_exists fs game_name c)
                 \<and> snd (check_image_exists fs game_name c) = Some ''missing'')
        [''2dbox'', ''3dbox'', ''disc'', ''psp-icon0''])"
  unfolding check_categories_def fold_categories by simp

lemma fold_completeness:
  "fold (\<lambda>game_name (missing_images, missing_only_games).
           case g game_name of
             (missing_cats, missing_only_cats) \<Rightarrow>
               ((if missing_cats \<noteq> [] then missing_images(game_name \<mapsto> missing_cats)
                 else missing_images),
                (if missing_only_cats \<noteq> [] then missing_only_games(game_name \<mapsto> missing_only_cats)
                 else missing_only_games)))
        names (m1, m2)
   = ((\<lambda>n. if n \<in> set names \<and> fst (g n) \<noteq> [] then Some (fst (g n)) else m1 n),
      (\<lambda>n. if n \<in> set names \<and> snd (g n) \<noteq> [] then Some (snd (g n)) else m2 n))"
proof (induction names arbitrary: m1 m2)
  case Nil
  then show ?case by simp
next
  case (Cons a names)
  show ?case
    by (simp add: Cons.IH split: prod.splits) (auto simp: fun_eq_iff)
qed

lemma check_collection_completeness_eq:
  "check_collection_completeness fs names =
     ((\<lambda>n. if n \<in> set names \<and> fst (check_categories fs n) \<noteq> []
           then Some (fst (check_categories fs n)) else None),
      (\<lambda>n. if n \<in> set names \<and> snd (check_categories fs n) \<noteq> []
           then Some (snd (check_categories fs n)) else None))"
  unfolding check_collection_completeness_def fold_completeness by simp

text \<open>
  Claim C10. For every game the two lists of the completeness check never share a
  category: a category is listed as missing exactly when no variant folder has the
  image, and as acknowledged missing exactly when the first folder that has it is the
  \<open>-missing\<close> one; every other category is in neither list.
\<close>

theorem completeness_lists_disjoint:
  "case check_collection_completeness fs names of
     (missing_images, missing_only_games) \<Rightarrow>
       (\<forall>game_name cats cats'.
           missing_images game_name = Some cats \<longrightarrow> missing_only_games game_name = Some cats'
           \<longrightarrow> set cats \<inter> set cats' = {})
     \<and> (\<forall>game_name \<in> set names. \<forall>category \<in> set [''2dbox'', ''3dbox'', ''disc'', ''psp-icon0''].
           (listed missing_images game_name category
              \<longleftrightarrow> \<not> fst (check_image_exists fs game_name category))
         \<and> (listed missing_only_games game_name category
              \<longleftrightarrow> check_image_exists fs game_name category = (True, Some ''missing'')))"
proof -
  let ?cats = "[''2dbox'', ''3dbox'', ''disc'', ''psp-icon0'']"
  have disj: "set (fst (check_categories fs n)) \<inter> set (snd (check_categories fs n)) = {}" for n
    by (auto simp: check_categories_eq)
  have miss: "c \<in> set (fst (check_categories fs n))
      \<longleftrightarrow> c \<in> set ?cats \<and> \<not> fst (check_image_exists fs n c)" for n c
    unfolding check_categories_eq by (simp only: fst_conv set_filter mem_Collect_eq)
  have only: "c \<in> set (snd (check_categories fs n))
      \<longleftrightarrow> c \<in> set ?cats \<and> check_image_exists fs n c = (True, Some ''missing'')" for n c
    unfolding check_categories_eq
    by (simp only: snd_conv set_filter mem_Collect_eq) (auto simp: prod_eq_iff)
  have l1: "listed (\<lambda>n. if n \<in> set names \<and> fst (check_categories fs n) \<noteq> []
           then Some (fst (check_categories fs n)) else None) n c
        \<longleftrightarrow> \<not> fst (check_image_exists fs n c)"
    if "n \<in> set names" "c \<in> set ?cats" for n c
    using that miss [of c n] by (auto simp: listed_def)
  have l2: "listed (\<lambda>n. if n \<in> set names \<and> snd (check_categories fs n) \<noteq> []
           then Some (snd (check_categories fs n)) else None) n c
        \<longleftrightarrow> check_image_exists fs n c = (True, Some ''missing'')"
    if "n \<in> set names" "c \<in> set ?cats" for n c
    using that only [of c n] by (auto simp: listed_def)
  show ?thesis
    unfolding check_collection_completeness_eq
    apply (simp only: prod.case)
    apply (intro conjI allI ballI impI)
    subgoal for n cs ps using disj [of n] by (auto split: if_splits)
    subgoal for n c using l1 [of n c] by simp
    subgoal for n c using l2 [of n c] by simp
    done
qed

lemma example_fs_categories:
  "check_categories example_fs ''Game A'' = ([''disc''], [''3dbox''])"
  by (simp add: check_categories_def check_image_exists_def example_fs_def)

theorem completeness_lists_disjoint_witness:
  "''Game A'' \<in> set [''Game A'']
   \<and> fst (check_collection_completeness example_fs [''Game A'']) ''Game A'' = Some [''disc'']
   \<and> snd (check_collection_completeness example_fs [''Game A'']) ''Game A'' = Some [''3dbox'']
   \<and> set [''disc''] \<inter> set [''3dbox''] = {}
   \<and> \<not> fst (check_image_exists example_fs ''Game A'' ''disc'')
   \<and> check_image_exists example_fs ''Game A'' ''3dbox'' = (True, Some ''missing'')"
  using completeness_lists_disjoint [where fs = example_fs and names = "[''Game A'']"]
  by (simp add: check_collection_completeness_def example_fs_categories)
    (simp add: check_image_exists_def example_fs_def)


section \<open>The filter report is parsed as the state machine says\<close>

lemma section_header_eq: "section_header line = map_option section_name (header_section line)"
  by (simp add: section_header_def header_section_def)

lemma section_name_Clone [simp]: "section_name sec = ''Clone'' \<longleftrightarrow> sec = Clone"
  by (cases sec) simp_all

lemma section_name_nonempty [simp]: "section_name sec \<noteq> []"
  by (cases sec) simp_all

lemma set_dropWhile_keeps: "x \<in> set xs \<Longrightarrow> \<not> P x \<Longrightarrow> x \<in> set (dropWhile P xs)"
  by (induction xs) auto

lemma strip_nonempty: "c \<in> set s \<Longrightarrow> \<not> isspace c \<Longrightarrow> strip s \<noteq> []"
proof -
  assume c: "c \<in> set s" "\<not> isspace c"
  then have "c \<in> set (rev (dropWhile isspace s))"
    by (simp add: set_dropWhile_keeps)
  then have "c \<in> set (dropWhile isspace (rev (dropWhile isspace s)))"
    using c(2) by (rule set_dropWhile_keeps)
  then have "dropWhile isspace (rev (dropWhile isspace s)) \<noteq> []"
    by (metis empty_iff empty_set)
  then show ?thesis
    by (simp only: strip_def rstrip_def lstrip_def rev_is_Nil_conv not_False_eq_True)
qed

lemma rstrip_last: "rstrip s \<noteq> [] \<Longrightarrow> \<not> isspace (last (rstrip s))"
  unfolding rstrip_def
  by (metis hd_dropWhile last_rev rev_is_Nil_conv rev_rev_ident)

lemma lstrip_last: "lstrip s \<noteq> [] \<Longrightarrow> last (lstrip s) = last s"
  unfolding lstrip_def
  by (metis last_appendR takeWhile_dropWhile_id)

lemma marked_title_nonempty:
  assumes "startswith (lstrip (rstrip raw)) [m, CHR '' '']"
  shows "strip (drop 2 (lstrip (rstrip raw))) \<noteq> []"
proof -
  let ?s = "lstrip (rstrip raw)"
  from assms have eq: "?s = [m, CHR '' ''] @ drop 2 ?s"
    unfolding startswith_def by (metis append_take_drop_id length_Cons list.size(3) numeral_2_eq_2)
  then have ne: "?s \<noteq> []" by auto
  then have "rstrip raw \<noteq> []" by (auto simp: lstrip_def)
  then have "\<not> isspace (last (rstrip raw))" by (rule rstrip_last)
  then have nsp: "\<not> isspace (last ?s)" using lstrip_last [OF ne] by simp
  have rest: "drop 2 ?s \<noteq> []"
  proof
    assume "drop 2 ?s = []"
    with eq have "?s = [m, CHR '' '']" by simp
    with nsp show False by (simp add: isspace_def)
  qed
  then have "last ?s = last (drop 2 ?s)"
    using eq by (metis last_appendR)
  with nsp have "\<not> isspace (last (drop 2 ?s))" by simp
  moreover have "last (drop 2 ?s) \<in> set (drop 2 ?s)"
    using rest by (rule last_in_set)
  ultimately show ?thesis by (metis strip_nonempty)
qed

lemma kept_nonempty: "classify raw = Kept title \<Longrightarrow> title \<noteq> []"
  using marked_title_nonempty [of raw "CHR ''+''"]
  by (auto simp: classify_def Let_def split: option.splits if_splits)

lemma process_line_simulates:
  assumes "simulates st s"
  shows "simulates (process_line st raw) (spec_step s (classify raw))"
proof (cases "classify raw")
  case (Header sec)
  then show ?thesis
    using assms
    by (auto simp: simulates_def process_line_def classify_def Let_def section_header_eq
        split: option.splits if_splits)
next
  case Ignored
  then show ?thesis
    using assms
    by (auto simp: simulates_def process_line_def classify_def Let_def section_header_eq
        split: option.splits if_splits)
next
  case (Kept title)
  then have "title \<noteq> []" by (rule kept_nonempty)
  with Kept show ?thesis
    using assms
    by (auto simp: simulates_def process_line_def classify_def Let_def section_header_eq
        split: option.splits if_splits)
next
  case (Removed title)
  then show ?thesis
    using assms
    by (cases "state s"; cases "parent s")
      (auto simp: simulates_def process_line_def classify_def Let_def section_header_eq fun_eq_iff
        split: option.splits if_splits)
next
  case Other
  then show ?thesis
    using assms
    by (auto simp: simulates_def process_line_def classify_def Let_def section_header_eq
        split: option.splits if_splits)
qed

lemma process_lines_simulates: "simulates (process_lines ls) (spec_run (map classify ls))"
proof (induction ls rule: rev_induct)
  case Nil
  then show ?case
    by (simp add: process_lines_def spec_run_def initial_state_def simulates_def fun_eq_iff)
next
  case (snoc l ls)
  then show ?case
    using process_line_simulates [of "process_lines ls" "spec_run (map classify ls)" l]
    by (simp add: process_lines_def spec_run_def)
qed


lemma example_report_lines:
  "file_lines example_report =
     [''TITLES WITH CLONES\<newline>'', ''+ Game A (USA)\<newline>'', ''- Game A (Europe)\<newline>'',
      ''AUDIO REMOVES\<newline>'', ''- Game B\<newline>'']"
  by (simp add: example_report_def)

lemma example_report_classes:
  "map classify (file_lines example_report) =
     [Header Clone, Kept ''Game A (USA)'', Removed ''Game A (Europe)'', Header Audio,
      Removed ''Game B'']"
  unfolding example_report_lines
  by (simp add: classify_def header_section_def rstrip_def lstrip_def strip_def isspace_def
      startswith_def)

text \<open>
  Claim C9. The parser of the filter report is the specified state machine: its result
  is the machine's table of tags, each tag written as the code's reason string. So a
  removed line is tagged \<open>superseded-by(parent)\<close> when the section is \<open>Clone\<close> and a kept
  line has set a parent, with the reason of the section when one is set, and as
  unspecified otherwise. On the example report the result is
  \<open>{Game A (Europe): superseded-by(Game A (USA)), Game B: audio}\<close>.
\<close>

theorem parse_filter_report_state_machine:
  "parse_filter_report (Inr text)
     = map_option reason_string \<circ> tags (spec_run (map classify (file_lines text)))
   \<and> tags (spec_run (map classify (file_lines example_report)))
     = [''Game A (Europe)'' \<mapsto> Superseded_by ''Game A (USA)'',
        ''Game B'' \<mapsto> Section_reason Audio]
   \<and> parse_filter_report (Inr example_report)
     = [''Game A (Europe)'' \<mapsto> ''Superior version: '' @ [CHR 0x27] @ ''Game A (USA)'' @ [CHR 0x27],
        ''Game B'' \<mapsto> ''Audio'']"
proof -
  have run: "parse_filter_report (Inr t)
      = map_option reason_string \<circ> tags (spec_run (map classify (file_lines t)))" for t
    using process_lines_simulates [of "file_lines t"]
    by (simp add: parse_filter_report_def simulates_def)
  have tags: "tags (spec_run (map classify (file_lines example_report)))
     = [''Game A (Europe)'' \<mapsto> Superseded_by ''Game A (USA)'',
        ''Game B'' \<mapsto> Section_reason Audio]"
    unfolding example_report_classes by (simp add: spec_run_def)
  have "parse_filter_report (Inr example_report)
     = [''Game A (Europe)'' \<mapsto> ''Superior version: '' @ [CHR 0x27] @ ''Game A (USA)'' @ [CHR 0x27],
        ''Game B'' \<mapsto> ''Audio'']"
    unfolding run tags by (simp add: fun_eq_iff)
  with run tags show ?thesis by blast
qed


section \<open>What \<open>extract_revision\<close> finds and removes\<close>

lemma takeWhile_digits_stop:
  "list_all isdigit ds \<Longrightarrow> \<not> isdigit c \<Longrightarrow> takeWhile isdigit (ds @ c # r) = ds \<and> dropWhile isdigit (ds @ c # r) = c # r"
  by (induction ds) auto

lemma not_digit_paren [simp]: "\<not> isdigit CHR '')''" "\<not> isdigit CHR ''(''" "\<not> isdigit CHR '' ''"
  by (simp_all add: isdigit_def)

lemma not_space_paren [simp]: "\<not> isspace CHR '')''" "\<not> isspace CHR ''(''"
  by (simp_all add: isspace_def)

lemma match_rev_marker:
  "rev_word r e v \<Longrightarrow> digits ds \<Longrightarrow> match_rev (marker r e v ds @ w) = Some (ds, w)"
  using takeWhile_digits_stop [of ds "CHR '')''" w]
  by (auto simp: marker_def rev_word_def digits_def)

lemma match_rev_shape:
  assumes "match_rev s = Some (ds, w)"
  shows "\<exists>r e v. rev_word r e v \<and> digits ds \<and> s = marker r e v ds @ w"
  using assms
proof (induction s rule: match_rev.induct)
  case (1 c0 c1 c2 c3 c4 s)
  then have letters: "c0 = CHR ''(''" "rev_word c1 c2 c3" "c4 = CHR '' ''"
    and ds: "ds = takeWhile isdigit s" "ds \<noteq> []"
    and rest: "dropWhile isdigit s = CHR '')'' # w"
    by (auto simp: rev_word_def split: if_splits list.splits)
  have "s = ds @ CHR '')'' # w"
    using ds(1) rest by (metis takeWhile_dropWhile_id)
  moreover have "digits ds"
    using ds by (auto simp: digits_def list_all_iff dest: set_takeWhileD)
  ultimately show ?case
    using letters by (auto simp: marker_def)
qed simp_all

lemma match_rev_straddle:
  assumes "p \<noteq> []" and "blocks q" and "match_rev (p @ q) = Some (ds, w)"
  shows "\<exists>w'. w = w' @ q \<and> match_rev p = Some (ds, w')"
proof (cases q)
  case Nil
  with assms show ?thesis by simp
next
  case (Cons c q')
  from match_rev_shape [OF assms(3)] obtain r e v
    where rev: "rev_word r e v" and ds: "digits ds" and eq: "p @ q = marker r e v ds @ w"
    by blast
  from assms(2) Cons have c: "c \<notin> set ''RrEeVv)''" "\<not> isdigit c"
    and sp: "c = CHR '' '' \<Longrightarrow> (case q' of [] \<Rightarrow> True | d # _ \<Rightarrow> \<not> isdigit d)"
    by (simp_all add: blocks_def)
  from ds obtain d ds' where dsc: "ds = d # ds'" "isdigit d"
    by (cases ds) (auto simp: digits_def)
  consider (long) c0 c1 c2 c3 c4 s where "p = c0 # c1 # c2 # c3 # c4 # s"
    | (one) a0 where "p = [a0]" | (two) a0 a1 where "p = [a0, a1]"
    | (three) a0 a1 a2 where "p = [a0, a1, a2]" | (four) a0 a1 a2 a3 where "p = [a0, a1, a2, a3]"
    using assms(1) by (cases p rule: match_rev.cases) auto
  then show ?thesis
  proof cases
    case (long c0 c1 c2 c3 c4 s)
    with eq have head: "c0 = CHR ''(''" "c1 = r" "c2 = e" "c3 = v" "c4 = CHR '' ''"
      and tail: "s @ q = ds @ CHR '')'' # w"
      by (simp_all add: marker_def)
    from tail obtain us where
      "(s = ds @ us \<and> us @ q = CHR '')'' # w) \<or> (s @ us = ds \<and> q = us @ CHR '')'' # w)"
      by (auto simp: append_eq_append_conv2)
    then show ?thesis
    proof
      assume a: "s = ds @ us \<and> us @ q = CHR '')'' # w"
      show ?thesis
      proof (cases us)
        case Nil
        with a Cons c show ?thesis by simp
      next
        case (Cons u us')
        with a have "u = CHR '')''" "w = us' @ q" "s = ds @ CHR '')'' # us'" by simp_all
        then have "p = marker r e v ds @ us'"
          using long head by (simp add: marker_def)
        then show ?thesis
          using match_rev_marker [OF rev ds, of us'] \<open>w = us' @ q\<close> by simp
      qed
    next
      assume a: "s @ us = ds \<and> q = us @ CHR '')'' # w"
      show ?thesis
      proof (cases us)
        case Nil
        with a Cons c show ?thesis by simp
      next
        case (Cons u us')
        with a have "u \<in> set ds" "c = u" using \<open>q = c # q'\<close> by auto
        with ds c show ?thesis by (auto simp: digits_def list_all_iff)
      qed
    qed
  next
    case (one a0)
    with eq Cons c rev show ?thesis by (auto simp: marker_def rev_word_def)
  next
    case (two a0 a1)
    with eq Cons c rev show ?thesis by (auto simp: marker_def rev_word_def)
  next
    case (three a0 a1 a2)
    with eq Cons c rev show ?thesis by (auto simp: marker_def rev_word_def)
  next
    case (four a0 a1 a2 a3)
    with eq Cons dsc have "c = CHR '' ''" "q' = d # ds' @ CHR '')'' # w"
      by (simp_all add: marker_def)
    with sp dsc show ?thesis by simp
  qed
qed

lemma match_rev_append:
  assumes "p \<noteq> []" and "blocks q"
  shows "match_rev (p @ q) = map_option (\<lambda>(ds, w). (ds, w @ q)) (match_rev p)"
proof (cases "match_rev p")
  case None
  have "match_rev (p @ q) = None"
  proof (rule ccontr)
    assume "match_rev (p @ q) \<noteq> None"
    then obtain ds w where "match_rev (p @ q) = Some (ds, w)" by auto
    from match_rev_straddle [OF assms this] None show False by auto
  qed
  with None show ?thesis by simp
next
  case (Some x)
  obtain ds w where x: "x = (ds, w)" by (cases x)
  from match_rev_shape [of p ds w] Some x obtain r e v
    where "rev_word r e v" "digits ds" "p = marker r e v ds @ w" by auto
  then have "match_rev (p @ q) = Some (ds, w @ q)"
    using match_rev_marker [of r e v ds "w @ q"] by simp
  with Some x show ?thesis by simp
qed

lemma re_search_append:
  "blocks q \<Longrightarrow> re_search (p @ q) = (case re_search p of Some ds \<Rightarrow> Some ds | None \<Rightarrow> re_search q)"
proof (induction p)
  case Nil
  then show ?case by simp
next
  case (Cons c p)
  then show ?case
    using match_rev_append [of "c # p" q]
    by (cases "match_rev (c # p)") auto
qed

lemma re_search_None_match: "re_search s = None \<Longrightarrow> match_rev s = None"
  by (cases s) (auto split: option.splits)

lemma re_search_None_dropWhile: "re_search s = None \<Longrightarrow> re_search (dropWhile P s) = None"
  by (induction s) (auto split: option.splits)

lemma re_sub_append:
  assumes "re_search p = None" and "p = [] \<or> \<not> isspace (last p)" and "blocks q"
  shows "re_sub (p @ q) = p @ re_sub q"
  using assms(1,2)
proof (induction p)
  case Nil
  then show ?case by simp
next
  case (Cons c p)
  from Cons.prems have last: "\<not> isspace (last (c # p))" by simp
  then have "\<exists>x\<in>set (c # p). \<not> isspace x"
    by (metis last_in_set list.discI)
  then have dw: "dropWhile isspace ((c # p) @ q) = dropWhile isspace (c # p) @ q"
    and ne: "dropWhile isspace (c # p) \<noteq> []"
    by (simp_all only: dropWhile_append1 dropWhile_eq_Nil_conv not_False_eq_True) auto
  have "match_rev (dropWhile isspace (c # p)) = None"
    using Cons.prems(1) by (intro re_search_None_match re_search_None_dropWhile)
  then have none: "match_rev (dropWhile isspace ((c # p) @ q)) = None"
    unfolding dw using match_rev_append [OF ne assms(3)] by simp
  have "re_search p = None"
    using Cons.prems(1) by (auto split: option.splits)
  moreover have "p = [] \<or> \<not> isspace (last p)"
    using last by (cases p) auto
  ultimately have "re_sub (p @ q) = p @ re_sub q" by (rule Cons.IH)
  then show ?case
    using none by simp
qed


lemma re_sub_id: "re_search s = None \<Longrightarrow> re_sub s = s"
proof (induction s)
  case Nil
  then show ?case by simp
next
  case (Cons c s)
  have "match_rev (dropWhile isspace (c # s)) = None"
    using Cons.prems by (intro re_search_None_match re_search_None_dropWhile)
  moreover have "re_search s = None"
    using Cons.prems by (auto split: option.splits)
  ultimately show ?case using Cons.IH by simp
qed

lemma re_search_marker_free: "re_search s = None \<longleftrightarrow> marker_free s"
proof
  assume none: "re_search s = None"
  show "marker_free s"
    unfolding marker_free_def
  proof (intro allI impI notI)
    fix u r e v ds w
    assume m: "rev_word r e v \<and> digits ds" and s: "s = u @ marker r e v ds @ w"
    have "re_search (u @ marker r e v ds @ w) \<noteq> None"
    proof (induction u)
      case Nil
      have "marker r e v ds @ w = CHR ''('' # r # e # v # CHR '' '' # ds @ '')'' @ w"
        by (simp add: marker_def)
      then obtain c t where ct: "marker r e v ds @ w = c # t" by blast
      have "match_rev (c # t) = Some (ds, w)"
        using match_rev_marker [of r e v ds w] m ct by simp
      then show ?case using ct by simp
    next
      case (Cons c u)
      then show ?case by (auto split: option.splits)
    qed
    with none s show False by simp
  qed
next
  assume free: "marker_free s"
  show "re_search s = None"
  proof (rule ccontr)
    assume "re_search s \<noteq> None"
    then have "\<exists>u r e v ds w. rev_word r e v \<and> digits ds \<and> s = u @ marker r e v ds @ w"
    proof (induction s)
      case Nil
      then show ?case by simp
    next
      case (Cons c s)
      show ?case
      proof (cases "match_rev (c # s)")
        case None
        with Cons obtain u r e v ds w
          where "rev_word r e v" "digits ds" "s = u @ marker r e v ds @ w" by auto
        then have "rev_word r e v \<and> digits ds \<and> c # s = (c # u) @ marker r e v ds @ w" by simp
        then show ?thesis by blast
      next
        case (Some x)
        obtain ds w where "x = (ds, w)" by (cases x)
        with Some match_rev_shape [of "c # s" ds w] obtain r e v
          where "rev_word r e v \<and> digits ds \<and> c # s = [] @ marker r e v ds @ w" by auto
        then show ?thesis by blast
      qed
    qed
    with free show False unfolding marker_free_def by blast
  qed
qed

lemma strip_ends: "strip x = [] \<or> (\<not> isspace (hd (strip x)) \<and> \<not> isspace (last (strip x)))"
proof (cases "strip x = []")
  case True
  then show ?thesis by simp
next
  case False
  let ?l = "dropWhile isspace x"
  let ?r = "dropWhile isspace (rev ?l)"
  have s: "strip x = rev ?r" by (simp add: strip_def rstrip_def lstrip_def)
  with False have r: "?r \<noteq> []" by simp
  then have "\<not> isspace (hd ?r)" by (rule hd_dropWhile)
  then have last: "\<not> isspace (last (strip x))"
    using r s by (simp add: last_rev)
  have l: "?l \<noteq> []"
  proof
    assume e: "?l = []"
    have "?r = []" unfolding e by simp
    with r show False by (simp only: not_True_eq_False)
  qed
  then have hl: "\<not> isspace (hd ?l)" by (rule hd_dropWhile)
  have "rev ?l = takeWhile isspace (rev ?l) @ ?r" by simp
  then have "?l = rev ?r @ rev (takeWhile isspace (rev ?l))"
    by (metis rev_append rev_rev_ident)
  then have "hd ?l = hd (rev ?r)"
    using r by (metis hd_append2 rev_is_Nil_conv)
  with hl s last show ?thesis by simp
qed

lemma strip_fixed:
  assumes "s = [] \<or> (\<not> isspace (hd s) \<and> \<not> isspace (last s))"
  shows "strip s = s"
proof (cases s)
  case Nil
  then show ?thesis by (simp add: strip_def rstrip_def lstrip_def)
next
  case (Cons c t)
  with assms have h: "\<not> isspace c" and l: "\<not> isspace (last s)" by auto
  from h Cons have "dropWhile isspace s = s" by simp
  moreover have "dropWhile isspace (rev s) = rev s"
  proof (cases "rev s")
    case Nil
    then show ?thesis by simp
  next
    case (Cons a r)
    have "hd (rev s) = last s" by (rule hd_rev)
    with Cons l have "\<not> isspace a" by simp
    with Cons show ?thesis by simp
  qed
  ultimately show ?thesis by (simp add: strip_def rstrip_def lstrip_def)
qed

lemma digit_value_digit_char: "d < 10 \<Longrightarrow> digit_value (digit_char d) = int d \<and> isdigit (digit_char d)"
proof -
  assume "d < 10"
  then have "d \<in> {0, 1, 2, 3, 4, 5, 6, 7, 8, 9}" by auto
  then show ?thesis
    by (auto simp: digit_value_def digit_char_def isdigit_def)
qed

lemma int_of_digits_snoc: "int_of_digits (ds @ [c]) = 10 * int_of_digits ds + digit_value c"
  by (simp add: int_of_digits_def)

lemma str_nat_digits: "digits (str_nat n) \<and> int_of_digits (str_nat n) = int n"
proof (induction n rule: str_nat.induct)
  case (1 n)
  show ?case
  proof (cases "n < 10")
    case True
    then show ?thesis
      using digit_value_digit_char [of n]
      by (simp add: digits_def int_of_digits_def)
  next
    case False
    have "n mod 10 < 10" by simp
    note d = digit_value_digit_char [OF this]
    from False 1 have ih: "digits (str_nat (n div 10))"
      "int_of_digits (str_nat (n div 10)) = int (n div 10)" by simp_all
    have eq: "str_nat n = str_nat (n div 10) @ [digit_char (n mod 10)]"
      using False by simp
    have "int_of_digits (str_nat n) = 10 * int (n div 10) + int (n mod 10)"
      unfolding eq int_of_digits_snoc using ih d by simp
    also have "\<dots> = int n" by presburger
    finally have "int_of_digits (str_nat n) = int n" .
    moreover have "digits (str_nat n)"
      unfolding eq using ih d by (simp add: digits_def)
    ultimately show ?thesis by simp
  qed
qed


lemma blocks_spaces_marker:
  assumes "list_all isspace ws"
  shows "blocks (ws @ marker r e v ds @ post)"
proof (cases ws)
  case Nil
  then show ?thesis by (simp add: blocks_def marker_def isdigit_def)
next
  case (Cons c ws')
  with assms have c: "isspace c" and ws': "list_all isspace ws'" by simp_all
  from c have "c \<notin> set ''RrEeVv)''" "\<not> isdigit c"
    by (auto simp: isspace_def isdigit_def)
  moreover have "case ws' @ marker r e v ds @ post of [] \<Rightarrow> True | d # _ \<Rightarrow> \<not> isdigit d"
  proof (cases ws')
    case Nil
    then show ?thesis by (simp add: marker_def)
  next
    case (Cons d ws'')
    with ws' have "isspace d" by simp
    then have "\<not> isdigit d" by (auto simp: isspace_def isdigit_def)
    with Cons show ?thesis by simp
  qed
  ultimately show ?thesis using Cons by (simp add: blocks_def)
qed

lemma match_rev_not_paren: "c \<noteq> CHR ''('' \<Longrightarrow> match_rev (c # s) = None"
proof (rule ccontr)
  assume c: "c \<noteq> CHR ''(''" and "match_rev (c # s) \<noteq> None"
  then obtain ds w where "match_rev (c # s) = Some (ds, w)" by auto
  from match_rev_shape [OF this] c show False by (auto simp: marker_def)
qed

lemma dropWhile_spaces_marker:
  "list_all isspace ws \<Longrightarrow> dropWhile isspace (ws @ marker r e v ds @ post) = marker r e v ds @ post"
  by (induction ws) (simp_all add: marker_def)

lemma re_search_spaces_marker:
  assumes "list_all isspace ws" and "rev_word r e v" and "digits ds"
  shows "re_search (ws @ marker r e v ds @ post) = Some ds"
  using assms(1)
proof (induction ws)
  case Nil
  have "marker r e v ds @ post = CHR ''('' # tl (marker r e v ds @ post)"
    by (simp add: marker_def)
  then have "re_search (marker r e v ds @ post)
      = (case match_rev (marker r e v ds @ post) of Some (ds, w) \<Rightarrow> Some ds
         | None \<Rightarrow> re_search (tl (marker r e v ds @ post)))"
    by (metis re_search.simps(2))
  then show ?case
    using match_rev_marker [OF assms(2,3), of post] by simp
next
  case (Cons c ws)
  then have "isspace c" by simp
  then have "c \<noteq> CHR ''(''" by (auto simp: isspace_def)
  then have "match_rev (c # ws @ marker r e v ds @ post) = None"
    by (rule match_rev_not_paren)
  with Cons show ?case by simp
qed

lemma re_sub_spaces_marker:
  assumes "list_all isspace ws" and "rev_word r e v" and "digits ds"
  shows "re_sub (ws @ marker r e v ds @ post) = re_sub post"
proof -
  let ?s = "ws @ marker r e v ds @ post"
  have "?s \<noteq> []" by (simp add: marker_def)
  then obtain c t where ct: "?s = c # t" by (cases ?s) auto
  have "match_rev (dropWhile isspace ?s) = Some (ds, post)"
    using dropWhile_spaces_marker [OF assms(1)] match_rev_marker [OF assms(2,3)] by simp
  then have "re_sub (c # t) = re_sub post"
    unfolding ct by simp
  with ct show ?thesis by simp
qed

lemma extract_revision_marker_free:
  "marker_free name \<Longrightarrow> extract_revision name = Inr (strip name, None)"
  by (simp add: extract_revision_def re_search_marker_free [symmetric])

lemma extract_revision_first_marker:
  assumes "marker_free pre" and "pre = [] \<or> \<not> isspace (last pre)" and "list_all isspace ws"
    and "rev_word r e v" and "digits ds"
  shows "extract_revision (pre @ ws @ marker r e v ds @ post)
        = (if length ds \<le> int_max_str_digits
           then Inr (strip (pre @ re_sub post), Some (int_of_digits ds))
           else Inl ValueError)"
proof -
  let ?q = "ws @ marker r e v ds @ post"
  from assms(1) have pre: "re_search pre = None" by (simp add: re_search_marker_free)
  have b: "blocks ?q" using assms(3) by (rule blocks_spaces_marker)
  have "re_search (pre @ ?q) = Some ds"
    using re_search_append [OF b, of pre] pre re_search_spaces_marker [OF assms(3-5)] by simp
  moreover have "re_sub (pre @ ?q) = pre @ re_sub post"
    using re_sub_append [OF pre assms(2) b] re_sub_spaces_marker [OF assms(3-5)] by simp
  ultimately show ?thesis
    by (simp add: extract_revision_def int_of_str_def)
qed

lemma without_markers_re_sub: "without_markers s t \<Longrightarrow> re_sub s = t"
proof (induction rule: without_markers.induct)
  case (no_marker s)
  then show ?case by (simp add: re_sub_id re_search_marker_free)
next
  case (first_marker pre ws r e v ds post post')
  have pre: "re_search pre = None"
    using first_marker.hyps(1) by (simp add: re_search_marker_free)
  have b: "blocks (ws @ marker r e v ds @ post)"
    using first_marker.hyps(3) by (rule blocks_spaces_marker)
  have "re_sub (pre @ ws @ marker r e v ds @ post) = pre @ re_sub (ws @ marker r e v ds @ post)"
    using pre first_marker.hyps(2) b by (rule re_sub_append)
  also have "re_sub (ws @ marker r e v ds @ post) = re_sub post"
    using first_marker.hyps(3-5) by (rule re_sub_spaces_marker)
  finally show ?case using first_marker.IH by simp
qed

lemma match_rev_extend: "match_rev p = Some (ds, w) \<Longrightarrow> match_rev (p @ q) = Some (ds, w @ q)"
proof -
  assume "match_rev p = Some (ds, w)"
  from match_rev_shape [OF this] obtain r e v
    where "rev_word r e v" "digits ds" "p = marker r e v ds @ w" by blast
  then show ?thesis
    using match_rev_marker [of r e v ds "w @ q"] by simp
qed

lemma leftmost_marker:
  "re_search s = Some ds \<Longrightarrow>
     \<exists>u r e v post. s = u @ marker r e v ds @ post \<and> re_search u = None \<and> rev_word r e v \<and> digits ds"
proof (induction s)
  case Nil
  then show ?case by simp
next
  case (Cons c s)
  show ?case
  proof (cases "match_rev (c # s)")
    case (Some x)
    obtain ds' w where x: "x = (ds', w)" by (cases x)
    with Some Cons.prems have "ds' = ds" by simp
    with Some x match_rev_shape [of "c # s" ds w] obtain r e v
      where "rev_word r e v" "digits ds" "c # s = marker r e v ds @ w" by auto
    then have "c # s = [] @ marker r e v ds @ w \<and> re_search [] = None \<and> rev_word r e v \<and> digits ds"
      by simp
    then show ?thesis by blast
  next
    case None
    with Cons.prems have "re_search s = Some ds" by simp
    from Cons.IH [OF this] obtain u r e v post
      where s: "s = u @ marker r e v ds @ post" and u: "re_search u = None"
        and m: "rev_word r e v" "digits ds" by blast
    have "match_rev (c # u) = None"
    proof (rule ccontr)
      assume "match_rev (c # u) \<noteq> None"
      then obtain ds' w where "match_rev (c # u) = Some (ds', w)" by auto
      from match_rev_extend [OF this, of "marker r e v ds @ post"] None s
      show False by simp
    qed
    with u have "re_search (c # u) = None" by simp
    with s m have "c # s = (c # u) @ marker r e v ds @ post \<and> re_search (c # u) = None
        \<and> rev_word r e v \<and> digits ds" by simp
    then show ?thesis by blast
  qed
qed

lemma marker_free_prefix: "marker_free (a @ b) \<Longrightarrow> marker_free a"
  unfolding marker_free_def
proof (intro allI impI notI)
  fix u r e v ds w
  assume free: "\<forall>u r e v ds w. rev_word r e v \<and> digits ds \<longrightarrow> a @ b \<noteq> u @ marker r e v ds @ w"
    and m: "rev_word r e v \<and> digits ds" and a: "a = u @ marker r e v ds @ w"
  from a have "a @ b = u @ marker r e v ds @ (w @ b)" by simp
  with free m show False by blast
qed

lemma first_marker_exists:
  assumes "\<not> marker_free s"
  shows "\<exists>pre ws r e v ds post.
           s = pre @ ws @ marker r e v ds @ post \<and> marker_free pre
           \<and> (pre = [] \<or> \<not> isspace (last pre)) \<and> list_all isspace ws
           \<and> rev_word r e v \<and> digits ds"
proof -
  from assms obtain ds where "re_search s = Some ds"
    by (auto simp: re_search_marker_free [symmetric])
  from leftmost_marker [OF this] obtain u r e v post
    where s: "s = u @ marker r e v ds @ post" and u: "re_search u = None"
      and m: "rev_word r e v" "digits ds" by blast
  let ?pre = "rstrip u" and ?ws = "rev (takeWhile isspace (rev u))"
  have split: "u = ?pre @ ?ws"
    unfolding rstrip_def by (metis rev_append rev_rev_ident takeWhile_dropWhile_id)
  have "marker_free u" using u by (simp add: re_search_marker_free)
  then have free: "marker_free ?pre" using split marker_free_prefix by metis
  have last: "?pre = [] \<or> \<not> isspace (last ?pre)"
    using rstrip_last [of u] by blast
  have ws: "list_all isspace ?ws"
    by (auto simp: list_all_iff dest: set_takeWhileD)
  have "s = ?pre @ ?ws @ marker r e v ds @ post"
    using s split by (metis append.assoc)
  with free last ws m show ?thesis by blast
qed

lemma without_markers_total: "\<exists>t. without_markers s t"
proof (induction s rule: length_induct)
  case (1 s)
  show ?case
  proof (cases "marker_free s")
    case True
    then show ?thesis by (blast intro: without_markers.no_marker)
  next
    case False
    from first_marker_exists [OF this] obtain pre ws r e v ds post
      where s: "s = pre @ ws @ marker r e v ds @ post" and pre: "marker_free pre"
        and last: "pre = [] \<or> \<not> isspace (last pre)" and ws: "list_all isspace ws"
        and m: "rev_word r e v" "digits ds" by blast
    have "length post < length s" using s by (simp add: marker_def)
    with 1 obtain post' where "without_markers post post'" by blast
    with pre last ws m have "without_markers (pre @ ws @ marker r e v ds @ post) (pre @ post')"
      by (rule without_markers.first_marker)
    with s show ?thesis by blast
  qed
qed

text \<open>
  Claim C1, as the code has it. For every name, \<open>extract_revision\<close> looks for the
  leftmost marker \<open>(Rev N)\<close>, in any case and anywhere in the name. When the name has no
  marker, the result is the trimmed name with no revision. When it has one, and the
  marker has no more digits than \<open>int\<close> converts, the result is the number of the leftmost
  marker together with the base obtained by removing every marker, each with the
  whitespace before it, and trimming; for a name with exactly one marker the base is the
  name without that one parenthetical and the whitespace before it, trimmed. When the
  leftmost marker has more digits, \<open>int\<close> raises \<open>ValueError\<close>. Every name is of one of
  the two kinds.
\<close>

theorem extract_revision_decomposes:
  "(marker_free name \<longrightarrow> extract_revision name = Inr (strip name, None))
   \<and> (marker_free pre \<and> (pre = [] \<or> \<not> isspace (last pre)) \<and> list_all isspace ws
        \<and> rev_word r e v \<and> digits ds \<and> without_markers post post' \<longrightarrow>
      extract_revision (pre @ ws @ marker r e v ds @ post)
        = (if length ds \<le> int_max_str_digits
           then Inr (strip (pre @ post'), Some (int_of_digits ds))
           else Inl ValueError))
   \<and> (marker_free pre \<and> (pre = [] \<or> \<not> isspace (last pre)) \<and> list_all isspace ws
        \<and> rev_word r e v \<and> digits ds \<and> marker_free post \<longrightarrow>
      extract_revision (pre @ ws @ marker r e v ds @ post)
        = (if length ds \<le> int_max_str_digits
           then Inr (strip (pre @ post), Some (int_of_digits ds))
           else Inl ValueError))
   \<and> (marker_free name
       \<or> (\<exists>pre ws r e v ds post post'.
            name = pre @ ws @ marker r e v ds @ post \<and> marker_free pre
            \<and> (pre = [] \<or> \<not> isspace (last pre)) \<and> list_all isspace ws
            \<and> rev_word r e v \<and> digits ds \<and> without_markers post post'))"
proof (intro conjI impI)
  assume "marker_free name"
  then show "extract_revision name = Inr (strip name, None)"
    by (rule extract_revision_marker_free)
next
  assume a: "marker_free pre \<and> (pre = [] \<or> \<not> isspace (last pre)) \<and> list_all isspace ws
        \<and> rev_word r e v \<and> digits ds \<and> without_markers post post'"
  then have "re_sub post = post'" by (simp add: without_markers_re_sub)
  then show "extract_revision (pre @ ws @ marker r e v ds @ post)
        = (if length ds \<le> int_max_str_digits
           then Inr (strip (pre @ post'), Some (int_of_digits ds))
           else Inl ValueError)"
    using a extract_revision_first_marker [of pre ws r e v ds post] by simp
next
  assume a: "marker_free pre \<and> (pre = [] \<or> \<not> isspace (last pre)) \<and> list_all isspace ws
        \<and> rev_word r e v \<and> digits ds \<and> marker_free post"
  then have "re_sub post = post" by (simp add: re_sub_id re_search_marker_free)
  then show "extract_revision (pre @ ws @ marker r e v ds @ post)
        = (if length ds \<le> int_max_str_digits
           then Inr (strip (pre @ post), Some (int_of_digits ds))
           else Inl ValueError)"
    using a extract_revision_first_marker [of pre ws r e v ds post] by simp
next
  show "marker_free name
       \<or> (\<exists>pre ws r e v ds post post'.
            name = pre @ ws @ marker r e v ds @ post \<and> marker_free pre
            \<and> (pre = [] \<or> \<not> isspace (last pre)) \<and> list_all isspace ws
            \<and> rev_word r e v \<and> digits ds \<and> without_markers post post')"
  proof (cases "marker_free name")
    case True
    then show ?thesis by simp
  next
    case False
    from first_marker_exists [OF this] obtain pre ws r e v ds post
      where "name = pre @ ws @ marker r e v ds @ post \<and> marker_free pre
        \<and> (pre = [] \<or> \<not> isspace (last pre)) \<and> list_all isspace ws
        \<and> rev_word r e v \<and> digits ds" by blast
    moreover obtain post' where "without_markers post post'"
      using without_markers_total by blast
    ultimately show ?thesis by blast
  qed
qed


theorem extract_revision_decomposes_witness:
  "marker_free ''Game A'' \<and> extract_revision ''Game A'' = Inr (''Game A'', None)
   \<and> \<not> isspace (last ''Game A'') \<and> list_all isspace '' ''
   \<and> rev_word CHR ''r'' CHR ''E'' CHR ''v'' \<and> digits ''012'' \<and> marker_free '' (Disc 2)''
   \<and> extract_revision (''Game A'' @ '' '' @ marker CHR ''r'' CHR ''E'' CHR ''v'' ''012'' @ '' (Disc 2)'')
       = Inr (''Game A (Disc 2)'', Some 12)
   \<and> without_markers '' (Rev 3) x'' '' x''
   \<and> extract_revision (''Game A'' @ '' '' @ marker CHR ''r'' CHR ''E'' CHR ''v'' ''012'' @ '' (Rev 3) x'')
       = Inr (''Game A x'', Some 12)
   \<and> digits (replicate 4301 CHR ''1'')
   \<and> extract_revision
         (''Game A'' @ '' '' @ marker CHR ''r'' CHR ''E'' CHR ''v'' (replicate 4301 CHR ''1'') @ '' (Disc 2)'')
       = Inl ValueError"
proof -
  have free: "marker_free ''Game A''" "marker_free '' (Disc 2)''" "marker_free []" "marker_free '' x''"
    by (simp_all add: re_search_marker_free [symmetric])
  have hyps: "\<not> isspace (last ''Game A'')" "list_all isspace '' ''"
    "rev_word CHR ''r'' CHR ''E'' CHR ''v''" "digits ''012''"
    by (simp_all add: isspace_def rev_word_def digits_def isdigit_def)
  have long: "digits (replicate 4301 CHR ''1'')"
    by (simp add: digits_def list_all_iff isdigit_def)
  have val: "int_of_digits ''012'' = 12"
    by (simp add: int_of_digits_def digit_value_def)
  have len: "length ''012'' \<le> int_max_str_digits"
    "\<not> length (replicate 4301 CHR ''1'') \<le> int_max_str_digits"
    by (simp_all add: int_max_str_digits_def)
  have strips: "strip ''Game A'' = ''Game A''" "strip ''Game A (Disc 2)'' = ''Game A (Disc 2)''"
    "strip ''Game A x'' = ''Game A x''"
    by (simp_all add: strip_def lstrip_def rstrip_def isspace_def)
  have "without_markers ([] @ '' '' @ marker CHR ''R'' CHR ''e'' CHR ''v'' ''3'' @ '' x'') ([] @ '' x'')"
    by (rule without_markers.first_marker)
      (simp_all add: free without_markers.no_marker isspace_def rev_word_def digits_def isdigit_def)
  then have wm: "without_markers '' (Rev 3) x'' '' x''"
    by (simp add: marker_def)
  note a = extract_revision_decomposes [of "''Game A''" "''Game A''" "'' ''" "CHR ''r''" "CHR ''E''"
      "CHR ''v''" "''012''" "'' (Disc 2)''" "'' (Disc 2)''"]
  note b = extract_revision_decomposes [of "''Game A''" "''Game A''" "'' ''" "CHR ''r''" "CHR ''E''"
      "CHR ''v''" "''012''" "'' (Rev 3) x''" "'' x''"]
  note c = extract_revision_decomposes [of "''Game A''" "''Game A''" "'' ''" "CHR ''r''" "CHR ''E''"
      "CHR ''v''" "replicate 4301 CHR ''1''" "'' (Disc 2)''" "'' (Disc 2)''"]
  from a free have r1: "extract_revision ''Game A'' = Inr (''Game A'', None)"
    by (simp only: strips)
  from a free hyps len
  have "extract_revision (''Game A'' @ '' '' @ marker CHR ''r'' CHR ''E'' CHR ''v'' ''012'' @ '' (Disc 2)'')
       = Inr (strip (''Game A'' @ '' (Disc 2)''), Some (int_of_digits ''012''))"
    by (simp only: if_True simp_thms)
  then have r2: "extract_revision (''Game A'' @ '' '' @ marker CHR ''r'' CHR ''E'' CHR ''v'' ''012'' @ '' (Disc 2)'')
       = Inr (''Game A (Disc 2)'', Some 12)"
    unfolding val by (simp add: strips)
  from b free hyps len wm
  have "extract_revision (''Game A'' @ '' '' @ marker CHR ''r'' CHR ''E'' CHR ''v'' ''012'' @ '' (Rev 3) x'')
       = Inr (strip (''Game A'' @ '' x''), Some (int_of_digits ''012''))"
    by (simp only: if_True simp_thms)
  then have r3: "extract_revision (''Game A'' @ '' '' @ marker CHR ''r'' CHR ''E'' CHR ''v'' ''012'' @ '' (Rev 3) x'')
       = Inr (''Game A x'', Some 12)"
    unfolding val by (simp add: strips)
  from c free hyps long len
  have r4: "extract_revision
         (''Game A'' @ '' '' @ marker CHR ''r'' CHR ''E'' CHR ''v'' (replicate 4301 CHR ''1'') @ '' (Disc 2)'')
       = Inl ValueError"
    by (simp only: if_False simp_thms)
  show ?thesis
    using free hyps long wm r1 r2 r3 r4 by blast
qed

text \<open>The claim as stated has exactly one parenthetical removed. A name with two markers
  loses both, and the number is that of the first.\<close>

theorem extract_revision_counterexample:
  "extract_revision ''Game A (Rev 1) (Rev 2)'' = Inr (''Game A'', Some 1)
   \<and> extract_revision ''Game A (Rev 1) (Rev 2)'' \<noteq> Inr (''Game A (Rev 2)'', Some 1)
   \<and> extract_revision ''Game A (Rev 1) (Rev 2)'' \<noteq> Inr (''Game A (Rev 1)'', Some 2)"
  by (simp add: extract_revision_def strip_def lstrip_def rstrip_def isspace_def isdigit_def
      int_of_str_def int_max_str_digits_def int_of_digits_def digit_value_def)

section \<open>Extracting a revision again from the reassembled name\<close>

lemma digit_value_range: "isdigit c \<Longrightarrow> 0 \<le> digit_value c \<and> digit_value c \<le> 9"
  by (auto simp: isdigit_def digit_value_def)

lemma int_of_digits_range:
  "list_all isdigit ds \<Longrightarrow> 0 \<le> int_of_digits ds \<and> int_of_digits ds < 10 ^ length ds"
proof (induction ds rule: rev_induct)
  case Nil
  then show ?case by (simp add: int_of_digits_def)
next
  case (snoc c ds)
  then have "0 \<le> int_of_digits ds" "int_of_digits ds < 10 ^ length ds" "isdigit c" by simp_all
  moreover note digit_value_range [OF \<open>isdigit c\<close>]
  ultimately show ?case by (simp add: int_of_digits_snoc)
qed

lemma length_str_nat: "n < 10 ^ k \<Longrightarrow> 0 < k \<Longrightarrow> length (str_nat n) \<le> k"
proof (induction n arbitrary: k rule: str_nat.induct)
  case (1 n)
  show ?case
  proof (cases "n < 10")
    case True
    with "1.prems" show ?thesis by simp
  next
    case False
    obtain j where k: "k = Suc j" using "1.prems"(2) by (cases k) auto
    have "0 < j"
    proof (rule ccontr)
      assume "\<not> 0 < j"
      with k "1.prems"(1) False show False by simp
    qed
    moreover have "n div 10 < 10 ^ j"
      using "1.prems"(1) k by (simp add: less_mult_imp_div_less mult.commute)
    ultimately have "length (str_nat (n div 10)) \<le> j"
      using "1.IH" [OF False] by simp
    then show ?thesis
      using False k by simp
  qed
qed

lemma extract_revision_found:
  assumes "extract_revision name = Inr (base, Some rev_num)"
  shows "\<exists>ds. digits ds \<and> length ds \<le> int_max_str_digits \<and> rev_num = int_of_digits ds
           \<and> base = strip (re_sub name)"
proof -
  from assms obtain ds where ds: "re_search name = Some ds"
    by (auto simp: extract_revision_def split: option.splits)
  with assms have "length ds \<le> int_max_str_digits" "rev_num = int_of_digits ds"
    "base = strip (re_sub name)"
    by (auto simp: extract_revision_def int_of_str_def split: if_splits)
  moreover from leftmost_marker [OF ds] have "digits ds" by blast
  ultimately show ?thesis by blast
qed

text \<open>
  Claim C6, as the code has it. For every name from which \<open>extract_revision\<close> yields
  \<open>(base, rev)\<close> with \<open>rev > 0\<close>, and whose base holds no marker of its own, the string
  \<open>{base} (Rev {rev})\<close> yields exactly \<open>(base, rev)\<close> again.
\<close>

theorem extract_revision_round_trip:
  assumes "extract_revision name = Inr (base, Some rev_num)" and "0 < rev_num"
    and "extract_revision base = Inr (strip base, None)"
  shows "extract_revision (base @ '' (Rev '' @ str_int rev_num @ '')'') = Inr (base, Some rev_num)"
proof -
  let ?ds = "str_nat (nat rev_num)"
  have str: "str_int rev_num = ?ds" using assms(2) by (simp add: str_int_def)
  have ds: "digits ?ds" and val: "int_of_digits ?ds = rev_num"
    using str_nat_digits [of "nat rev_num"] assms(2) by simp_all
  from extract_revision_found [OF assms(1)] obtain ds0
    where ds0: "digits ds0" "length ds0 \<le> int_max_str_digits" "rev_num = int_of_digits ds0"
      and base: "base = strip (re_sub name)" by blast
  have "int (nat rev_num) < 10 ^ length ds0"
    using int_of_digits_range [of ds0] ds0 assms(2) by (simp add: digits_def)
  then have "nat rev_num < 10 ^ length ds0"
    by (metis of_nat_less_iff of_nat_numeral of_nat_power)
  moreover have "0 < length ds0" using ds0(1) by (simp add: digits_def)
  ultimately have "length ?ds \<le> length ds0" by (rule length_str_nat)
  with ds0(2) have len: "length ?ds \<le> int_max_str_digits" by simp
  have tail: "'' (Rev '' @ ?ds @ '')'' = '' '' @ marker CHR ''R'' CHR ''e'' CHR ''v'' ?ds @ []"
    by (simp add: marker_def)
  have w: "rev_word CHR ''R'' CHR ''e'' CHR ''v''" by (simp add: rev_word_def)
  have sp: "list_all isspace '' ''" by (simp add: isspace_def)
  have ends: "base = [] \<or> (\<not> isspace (hd base) \<and> \<not> isspace (last base))"
    using strip_ends [of "re_sub name"] base by simp
  then have fixed: "strip base = base" by (rule strip_fixed)
  from ends have last: "base = [] \<or> \<not> isspace (last base)" by blast
  from assms(3) have none: "re_search base = None"
    by (auto simp: extract_revision_def int_of_str_def split: option.splits if_splits)
  then have free: "marker_free base" by (simp add: re_search_marker_free)
  have "extract_revision (base @ '' '' @ marker CHR ''R'' CHR ''e'' CHR ''v'' ?ds @ [])
      = (if length ?ds \<le> int_max_str_digits
         then Inr (strip (base @ re_sub []), Some (int_of_digits ?ds)) else Inl ValueError)"
    using free last sp w ds by (rule extract_revision_first_marker)
  then show ?thesis
    unfolding str tail using fixed val len by simp
qed

theorem extract_revision_round_trip_witness:
  "extract_revision ''Game A  (rev 07) (Disc 2)'' = Inr (''Game A (Disc 2)'', Some 7)
   \<and> (0::int) < 7
   \<and> extract_revision ''Game A (Disc 2)'' = Inr (strip ''Game A (Disc 2)'', None)
   \<and> extract_revision (''Game A (Disc 2)'' @ '' (Rev '' @ str_int 7 @ '')'')
       = Inr (''Game A (Disc 2)'', Some 7)"
proof -
  have 1: "extract_revision ''Game A  (rev 07) (Disc 2)'' = Inr (''Game A (Disc 2)'', Some 7)"
    by (simp add: extract_revision_def strip_def lstrip_def rstrip_def isspace_def isdigit_def
        int_of_str_def int_max_str_digits_def int_of_digits_def digit_value_def)
  have 2: "extract_revision ''Game A (Disc 2)'' = Inr (strip ''Game A (Disc 2)'', None)"
    by (simp add: extract_revision_def isdigit_def)
  have 3: "(0::int) < 7" by simp
  from extract_revision_round_trip [OF 1 3 2] 1 2 3 show ?thesis by blast
qed

text \<open>The claim as stated has the round trip for every name. Removing a marker can
  bring the two halves of another one together; the base then holds a marker, and the
  reassembled name yields another base and another number.\<close>

theorem extract_revision_round_trip_counterexample:
  "extract_revision ''Game A (Re(Rev 1)v 2)'' = Inr (''Game A (Rev 2)'', Some 1)
   \<and> (0::int) < 1
   \<and> extract_revision (''Game A (Rev 2)'' @ '' (Rev '' @ str_int 1 @ '')'') = Inr (''Game A'', Some 2)"
  by (simp add: extract_revision_def strip_def lstrip_def rstrip_def isspace_def isdigit_def
      int_of_str_def int_max_str_digits_def int_of_digits_def digit_value_def str_int_def
      digit_char_def)


section \<open>The highest revision of each base name\<close>

lemma extract_revision_nonneg: "extract_revision name = Inr (base, Some rev_num) \<Longrightarrow> 0 \<le> rev_num"
  using extract_revision_found [of name base rev_num] int_of_digits_range
  by (auto simp: digits_def)

lemma revision_number_nonneg: "extract_revision name = Inr (base, r) \<Longrightarrow> 0 \<le> revision_number r"
  using extract_revision_nonneg [of name base] by (cases r) simp_all

lemma catalog_entries_insert:
  "extract_revision name = Inr p \<Longrightarrow> catalog_entries (insert name N) = insert p (catalog_entries N)"
  by (auto simp: catalog_entries_def)

lemma finite_catalog_entries: "finite N \<Longrightarrow> finite (catalog_entries N)"
proof -
  assume "finite N"
  moreover have "catalog_entries N \<subseteq> (\<lambda>n. case extract_revision n of Inr p \<Rightarrow> p | Inl e \<Rightarrow> ([], None)) ` N"
  proof
    fix p
    assume "p \<in> catalog_entries N"
    then obtain n where n: "n \<in> N" "extract_revision n = Inr p"
      by (auto simp: catalog_entries_def)
    then have "p = (case extract_revision n of Inr p \<Rightarrow> p | Inl e \<Rightarrow> ([], None))" by simp
    with n(1) show "p \<in> (\<lambda>n. case extract_revision n of Inr p \<Rightarrow> p | Inl e \<Rightarrow> ([], None)) ` N"
      by blast
  qed
  ultimately show ?thesis by (meson finite_imageI finite_subset)
qed

lemma track_revision_eq:
  assumes "\<forall>v\<in>ran m. 0 \<le> v" and "extract_revision name = Inr (b, r)"
  shows "track_revision m name =
    Inr (m(b \<mapsto> max (revision_number r) (case m b of None \<Rightarrow> 0 | Some v \<Rightarrow> v)))"
proof (cases "m b")
  case None
  then show ?thesis
    using assms(2) revision_number_nonneg [OF assms(2)]
    by (cases r) (auto simp: track_revision_def defaultdict_get_def max_def dom_def)
next
  case (Some v)
  then have "0 \<le> v" using assms(1) by (auto simp: ran_def)
  with Some show ?thesis
    using assms(2)
    by (cases r) (auto simp: track_revision_def defaultdict_get_def max_def dom_def fun_upd_idem)
qed

lemma index_of_insert:
  assumes inv: "index_of m E" and fin: "finite E" and r0: "0 \<le> revision_number r"
  shows "index_of (m(b \<mapsto> max (revision_number r) (case m b of None \<Rightarrow> 0 | Some v \<Rightarrow> v)))
           (insert (b, r) E)"
proof -
  define cur where "cur = (case m b of None \<Rightarrow> 0 | Some v \<Rightarrow> v)"
  let ?m = "m(b \<mapsto> max (revision_number r) cur)"
  from inv have dom: "dom m = fst ` E" and pos: "\<forall>v\<in>ran m. 0 \<le> v"
    and mx: "\<And>c. c \<in> dom m \<Longrightarrow> m c = Some (Max (revision_number ` snd ` {p \<in> E. fst p = c}))"
    by (simp_all add: index_of_def)
  have cur0: "0 \<le> cur"
    using pos by (auto simp: cur_def ran_def split: option.splits)
  have d: "dom ?m = fst ` insert (b, r) E"
    using dom by auto
  have p: "\<forall>v\<in>ran ?m. 0 \<le> v"
    using pos cur0 r0 by (auto simp: ran_def split: if_splits)
  have v: "?m c = Some (Max (revision_number ` snd ` {p \<in> insert (b, r) E. fst p = c}))"
    if c: "c \<in> dom ?m" for c
  proof (cases "c = b")
    case False
    with c have "c \<in> dom m" by auto
    moreover from False have "{p \<in> insert (b, r) E. fst p = c} = {p \<in> E. fst p = c}"
      by auto
    ultimately show ?thesis using False mx by simp
  next
    case True
    let ?old = "{p \<in> E. fst p = b}"
    have split: "{p \<in> insert (b, r) E. fst p = c} = insert (b, r) ?old"
      using True by auto
    have finold: "finite (revision_number ` snd ` ?old)" using fin by simp
    have "max (revision_number r) cur = Max (revision_number ` snd ` insert (b, r) ?old)"
    proof (cases "m b")
      case None
      then have "b \<notin> dom m" by (simp add: domIff)
      then have "b \<notin> fst ` E" using dom by simp
      then have "\<And>p. p \<in> E \<Longrightarrow> fst p \<noteq> b" by (metis imageI)
      then have e: "?old = {}" by simp
      have "Max (revision_number ` snd ` insert (b, r) ?old) = revision_number r"
        unfolding e by simp
      moreover have "cur = 0" using None by (simp add: cur_def)
      ultimately show ?thesis
        using r0 by (simp only: max_def split: if_splits) simp
    next
      case (Some w)
      then have in_dom: "b \<in> dom m" by auto
      then have w: "w = Max (revision_number ` snd ` ?old)"
        using mx [of b] Some by simp
      have ne: "revision_number ` snd ` ?old \<noteq> {}"
        using in_dom dom by auto
      have "cur = w" using Some by (simp add: cur_def)
      then show ?thesis
        using w ne finold by (simp add: Max_insert)
    qed
    then show ?thesis using True split by simp
  qed
  show ?thesis
    unfolding index_of_def cur_def [symmetric] using d p v by blast
qed

lemma loops_without_exception:
  assumes "list_all (\<lambda>game. \<not> entry_raises unescape game) games"
    and "index_of m (catalog_entries N)" and "finite N"
  shows "\<exists>m' N'. track_revisions unescape games m = Inr m' \<and> add_game_names unescape games N = Inr N'
           \<and> index_of m' (catalog_entries N') \<and> finite N'"
  using assms
proof (induction games arbitrary: m N)
  case Nil
  then show ?case by simp
next
  case (Cons game games)
  from Cons.prems(1) have rest: "list_all (\<lambda>game. \<not> entry_raises unescape game) games"
    and this_one: "\<not> entry_raises unescape game" by simp_all
  show ?case
  proof (cases "\<exists>game_name. game = Some game_name \<and> game_name \<noteq> []")
    case False
    then have "track_revisions unescape (game # games) m = track_revisions unescape games m"
      "add_game_names unescape (game # games) N = add_game_names unescape games N"
      by (cases game; auto)+
    then show ?thesis
      using Cons.IH [OF rest Cons.prems(2,3)] by simp
  next
    case True
    then obtain game_name where game: "game = Some game_name" "game_name \<noteq> []" by blast
    with this_one obtain name b r
      where name: "unescape game_name = Inr name" and p: "extract_revision name = Inr (b, r)"
      by (auto simp: entry_raises_def split: sum.splits)
    let ?m = "m(b \<mapsto> max (revision_number r) (case m b of None \<Rightarrow> 0 | Some v \<Rightarrow> v))"
    from Cons.prems(2) have pos: "\<forall>v\<in>ran m. 0 \<le> v" by (simp add: index_of_def)
    have step: "track_revision m name = Inr ?m"
      using pos p by (rule track_revision_eq)
    have "index_of ?m (insert (b, r) (catalog_entries N))"
      using Cons.prems(2) finite_catalog_entries [OF Cons.prems(3)] revision_number_nonneg [OF p]
      by (rule index_of_insert)
    then have inv: "index_of ?m (catalog_entries (insert name N))"
      using catalog_entries_insert [OF p] by simp
    have fin: "finite (insert name N)" using Cons.prems(3) by simp
    from Cons.IH [OF rest inv fin] obtain m' N'
      where "track_revisions unescape games ?m = Inr m'"
        and "add_game_names unescape games (insert name N) = Inr N'"
        and "index_of m' (catalog_entries N')" and "finite N'" by blast
    moreover have "track_revisions unescape (game # games) m = track_revisions unescape games ?m"
      using game name step by simp
    moreover have "add_game_names unescape (game # games) N
        = add_game_names unescape games (insert name N)"
      using game name by simp
    ultimately show ?thesis by metis
  qed
qed

lemma loop_with_exception:
  "list_ex (entry_raises unescape) games \<Longrightarrow> \<exists>e. track_revisions unescape games m = Inl e"
proof (induction games arbitrary: m)
  case Nil
  then show ?case by simp
next
  case (Cons game games)
  show ?case
  proof (cases "entry_raises unescape game")
    case True
    then show ?thesis
      by (auto simp: entry_raises_def track_revision_def split: option.splits sum.splits)
  next
    case False
    with Cons.prems have "list_ex (entry_raises unescape) games" by simp
    then have "\<exists>e. track_revisions unescape games m' = Inl e" for m'
      by (rule Cons.IH)
    then show ?thesis
      by (auto split: option.splits sum.splits)
  qed
qed

lemma extract_revision_examples:
  "extract_revision ''Game A'' = Inr (''Game A'', None)"
  "extract_revision ''Game A (Rev 1)'' = Inr (''Game A'', Some 1)"
  "extract_revision ''Game A (Rev 2)'' = Inr (''Game A'', Some 2)"
  "extract_revision ''Game B'' = Inr (''Game B'', None)"
  by (simp_all add: extract_revision_def strip_def lstrip_def rstrip_def isspace_def isdigit_def
      int_of_str_def int_max_str_digits_def int_of_digits_def digit_value_def)

lemma extract_revision_long: "extract_revision long_revision_name = Inl ValueError"
proof -
  have "extract_revision (''Game A'' @ '' '' @ marker CHR ''R'' CHR ''e'' CHR ''v'' (replicate 4301 CHR ''1'') @ [])
      = (if length (replicate 4301 CHR ''1'') \<le> int_max_str_digits
         then Inr (strip (''Game A'' @ re_sub []), Some (int_of_digits (replicate 4301 CHR ''1'')))
         else Inl ValueError)"
    by (rule extract_revision_first_marker)
      (simp_all add: re_search_marker_free [symmetric] isspace_def rev_word_def digits_def
        list_all_iff isdigit_def)
  then show ?thesis
    by (simp add: long_revision_name_def marker_def int_max_str_digits_def)
qed

lemma long_revision_name_nonempty: "long_revision_name \<noteq> []"
  by (simp add: long_revision_name_def)

text \<open>
  Claim C4, as the code has it. When the loop raises at no entry of the catalog, the
  revision index has an entry for exactly the base names of the catalog names, and the
  entry of a base name is the greatest revision among the catalog names with that base,
  a name without a marker counting as 0; so a base that only occurs without a marker has
  the entry 0. For the catalog \<open>Game A\<close>, \<open>Game A (Rev 1)\<close>, \<open>Game A (Rev 2)\<close> the index
  is \<open>{Game A: 2}\<close>. When the loop raises at an entry, because its name does not unescape
  or the number of its marker does not convert, the handler returns the empty index.
\<close>

theorem parse_dat_file_for_revisions_max:
  "(list_all (\<lambda>game. \<not> entry_raises unescape game) games \<longrightarrow>
      (let index = parse_dat_file_for_revisions unescape (Inr games);
           entries = catalog_entries (parse_dat_file unescape (Inr games))
       in dom index = fst ` entries
          \<and> (\<forall>b\<in>fst ` entries.
                index b = Some (Max (revision_number ` snd ` {p \<in> entries. fst p = b})))
          \<and> (\<forall>b\<in>fst ` entries.
                (\<forall>p\<in>entries. fst p = b \<longrightarrow> snd p = None) \<longrightarrow> index b = Some 0)))
   \<and> (list_ex (entry_raises unescape) games \<longrightarrow>
        parse_dat_file_for_revisions unescape (Inr games) = Map.empty)
   \<and> (unescape ''Game A'' = Inr ''Game A'' \<and> unescape ''Game A (Rev 1)'' = Inr ''Game A (Rev 1)''
        \<and> unescape ''Game A (Rev 2)'' = Inr ''Game A (Rev 2)'' \<longrightarrow>
        parse_dat_file_for_revisions unescape
          (Inr [Some ''Game A'', Some ''Game A (Rev 1)'', Some ''Game A (Rev 2)''])
        = [''Game A'' \<mapsto> 2])"
proof (intro conjI impI)
  assume ok: "list_all (\<lambda>game. \<not> entry_raises unescape game) games"
  have "index_of Map.empty (catalog_entries {})"
    by (simp add: index_of_def catalog_entries_def)
  from loops_without_exception [OF ok this] obtain m N
    where m: "track_revisions unescape games Map.empty = Inr m"
      and N: "add_game_names unescape games {} = Inr N"
      and inv: "index_of m (catalog_entries N)" by auto
  have index: "parse_dat_file_for_revisions unescape (Inr games) = m"
    using m by (simp add: parse_dat_file_for_revisions_def)
  have names: "parse_dat_file unescape (Inr games) = N"
    using N by (simp add: parse_dat_file_def)
  let ?E = "catalog_entries N"
  from inv have dom: "dom m = fst ` ?E"
    and mx: "\<And>b. b \<in> fst ` ?E \<Longrightarrow> m b = Some (Max (revision_number ` snd ` {p \<in> ?E. fst p = b}))"
    by (simp_all add: index_of_def)
  have zero: "m b = Some 0"
    if b: "b \<in> fst ` ?E" and none: "\<forall>p\<in>?E. fst p = b \<longrightarrow> snd p = None" for b
  proof -
    have "revision_number ` snd ` {p \<in> ?E. fst p = b} = {0}"
      using b none by (auto simp: image_iff)
    then show ?thesis using mx [OF b] by simp
  qed
  show "let index = parse_dat_file_for_revisions unescape (Inr games);
           entries = catalog_entries (parse_dat_file unescape (Inr games))
       in dom index = fst ` entries
          \<and> (\<forall>b\<in>fst ` entries.
                index b = Some (Max (revision_number ` snd ` {p \<in> entries. fst p = b})))
          \<and> (\<forall>b\<in>fst ` entries.
                (\<forall>p\<in>entries. fst p = b \<longrightarrow> snd p = None) \<longrightarrow> index b = Some 0)"
    unfolding index names Let_def using dom mx zero by blast
next
  assume "list_ex (entry_raises unescape) games"
  from loop_with_exception [OF this] obtain e
    where "track_revisions unescape games Map.empty = Inl e" by blast
  then show "parse_dat_file_for_revisions unescape (Inr games) = Map.empty"
    by (cases e) (simp_all add: parse_dat_file_for_revisions_def)
next
  assume "unescape ''Game A'' = Inr ''Game A'' \<and> unescape ''Game A (Rev 1)'' = Inr ''Game A (Rev 1)''
        \<and> unescape ''Game A (Rev 2)'' = Inr ''Game A (Rev 2)''"
  then show "parse_dat_file_for_revisions unescape
          (Inr [Some ''Game A'', Some ''Game A (Rev 1)'', Some ''Game A (Rev 2)''])
        = [''Game A'' \<mapsto> 2]"
    by (simp add: parse_dat_file_for_revisions_def track_revision_def defaultdict_get_def
        extract_revision_examples)
qed


theorem parse_dat_file_for_revisions_max_witness:
  "list_all (\<lambda>game. \<not> entry_raises Inr game)
      [Some ''Game A'', Some ''Game A (Rev 1)'', Some ''Game A (Rev 2)'']
   \<and> parse_dat_file_for_revisions Inr
        (Inr [Some ''Game A'', Some ''Game A (Rev 1)'', Some ''Game A (Rev 2)''])
      = [''Game A'' \<mapsto> 2]
   \<and> list_all (\<lambda>game. \<not> entry_raises Inr game) [Some ''Game A'', None, Some []]
   \<and> catalog_entries (parse_dat_file Inr (Inr [Some ''Game A'', None, Some []]))
      = {(''Game A'', None)}
   \<and> parse_dat_file_for_revisions Inr (Inr [Some ''Game A'', None, Some []]) ''Game A'' = Some 0
   \<and> list_ex (entry_raises Inr) [Some long_revision_name]
   \<and> parse_dat_file_for_revisions Inr (Inr [Some long_revision_name]) = Map.empty"
proof -
  let ?g1 = "[Some ''Game A'', Some ''Game A (Rev 1)'', Some ''Game A (Rev 2)'']"
  let ?g2 = "[Some ''Game A'', None, Some []]"
  let ?g3 = "[Some long_revision_name]"
  have ok1: "list_all (\<lambda>game. \<not> entry_raises Inr game) ?g1"
    and ok2: "list_all (\<lambda>game. \<not> entry_raises Inr game) ?g2"
    by (simp_all add: entry_raises_def extract_revision_examples)
  have bad: "list_ex (entry_raises Inr) ?g3"
    by (simp add: entry_raises_def extract_revision_long long_revision_name_nonempty)
  have index1: "parse_dat_file_for_revisions Inr (Inr ?g1) = [''Game A'' \<mapsto> 2]"
    using parse_dat_file_for_revisions_max [of Inr ?g1] by blast
  have entries2: "catalog_entries (parse_dat_file Inr (Inr ?g2)) = {(''Game A'', None)}"
    by (auto simp: parse_dat_file_def catalog_entries_def extract_revision_examples)
  have "\<forall>b\<in>fst ` {(''Game A'', None :: int option)}.
          (\<forall>p\<in>{(''Game A'', None :: int option)}. fst p = b \<longrightarrow> snd p = None)
          \<longrightarrow> parse_dat_file_for_revisions Inr (Inr ?g2) b = Some 0"
    using parse_dat_file_for_revisions_max [of Inr ?g2] ok2 unfolding Let_def entries2 by blast
  then have index2: "parse_dat_file_for_revisions Inr (Inr ?g2) ''Game A'' = Some 0"
    by simp
  have index3: "parse_dat_file_for_revisions Inr (Inr ?g3) = Map.empty"
    using parse_dat_file_for_revisions_max [of Inr ?g3] bad by blast
  show ?thesis
    using ok1 ok2 bad index1 entries2 index2 index3 by blast
qed

text \<open>The claim as stated has every base name of the catalog in the index. One name
  whose marker has 4301 digits empties the index, and the base name of another entry of
  the same catalog is not in it.\<close>

theorem parse_dat_file_for_revisions_counterexample:
  "''Game B'' \<in> parse_dat_file Inr (Inr [Some ''Game B'', Some long_revision_name])
   \<and> extract_revision ''Game B'' = Inr (''Game B'', None)
   \<and> parse_dat_file_for_revisions Inr (Inr [Some ''Game B'', Some long_revision_name]) ''Game B''
       = None"
  by (simp add: parse_dat_file_def parse_dat_file_for_revisions_def track_revision_def
      extract_revision_examples extract_revision_long long_revision_name_nonempty)


end
